theory Spec2Isabelle
  imports Main "HOL-Library.Sublist" "HOL-Library.Multiset"
begin

section \<open>Records and the SQLite store (src/database/storage.py)\<close>

text \<open>
  Python \<^verbatim>\<open>str\<close> values are modelled as \<^typ>\<open>string\<close>; text outside ASCII stands for its
  UTF-8 bytes. Two library functions are not code of the repository and are parameters of
  the model wherever the source calls them:
  \<^item> \<open>md5\<close> stands for \<^verbatim>\<open>lambda u: hashlib.md5(u.encode()).hexdigest()\<close>;
  \<^item> \<open>lower\<close> stands for \<^verbatim>\<open>str.lower\<close>.
  Every theorem holds for every choice of them.
\<close>

record BidInfo =
  title :: string
  url :: string
  publish_date :: string
  source :: string
  content :: string
  purchaser :: string

text \<open>The property \<^verbatim>\<open>BidInfo.unique_id\<close>: the MD5 hex digest of the URL.\<close>

definition unique_id :: "(string \<Rightarrow> string) \<Rightarrow> BidInfo \<Rightarrow> string" where
  "unique_id md5 bid = md5 (url bid)"

text \<open>
  One row of the table \<^verbatim>\<open>bids\<close>. The six columns that a \<^verbatim>\<open>BidInfo\<close> is rebuilt from are kept
  together in \<open>row_bid\<close>; \<open>notified\<close> is the INTEGER column (0 or 1); \<open>created_at\<close> is
  what \<^verbatim>\<open>CURRENT_TIMESTAMP\<close> gives at the INSERT, a text of the form YYYY-MM-DD HH:MM:SS whose
  text order is its time order, modelled as the number of that second. The table is the list
  of its rows in rowid order: the AUTOINCREMENT key grows with every INSERT, so a new row
  goes to the end.
\<close>

record row =
  row_unique_id :: string
  row_bid :: BidInfo
  notified :: int
  created_at :: nat

type_synonym store = "row list"

text \<open>\<^verbatim>\<open>Storage.exists\<close>: \<^verbatim>\<open>SELECT 1 FROM bids WHERE unique_id = ?\<close>, then \<^verbatim>\<open>fetchone() is not None\<close>.\<close>

definition exists_bid :: "(string \<Rightarrow> string) \<Rightarrow> store \<Rightarrow> BidInfo \<Rightarrow> bool" where
  "exists_bid md5 s bid = (find (\<lambda>r. row_unique_id r = unique_id md5 bid) s \<noteq> None)"

text \<open>
  \<^verbatim>\<open>Storage.save(bid, notified)\<close> at clock reading \<open>now\<close>: the returned flag and the table
  after the call.
\<close>

definition save :: "(string \<Rightarrow> string) \<Rightarrow> store \<Rightarrow> BidInfo \<Rightarrow> bool \<Rightarrow> nat \<Rightarrow> bool \<times> store" where
  "save md5 s bid notified_arg now =
     (if exists_bid md5 s bid then (False, s)
      else (True, s @ [\<lparr>row_unique_id = unique_id md5 bid, row_bid = bid,
                          notified = (if notified_arg then 1 else 0), created_at = now\<rparr>]))"

text \<open>\<^verbatim>\<open>UPDATE bids SET notified = 1 WHERE unique_id = ?\<close>\<close>

definition update_notified :: "string \<Rightarrow> store \<Rightarrow> store" where
  "update_notified uid s = map (\<lambda>r. if row_unique_id r = uid then r\<lparr>notified := 1\<rparr> else r) s"

text \<open>
  The argument of \<^verbatim>\<open>Storage.mark_notified\<close>, which its docstring gives three forms: one
  \<^verbatim>\<open>BidInfo\<close>, a list of them, or a list of URLs. An empty list of either kind runs no UPDATE.
\<close>

datatype mark_arg = Single BidInfo | BidList "BidInfo list" | UrlList "string list"

fun mark_notified :: "(string \<Rightarrow> string) \<Rightarrow> store \<Rightarrow> mark_arg \<Rightarrow> store" where
  "mark_notified md5 s (Single bid) = update_notified (unique_id md5 bid) s"
| "mark_notified md5 s (BidList bids) =
     foldl (\<lambda>s' bid. update_notified (unique_id md5 bid) s') s bids"
| "mark_notified md5 s (UrlList urls) =
     foldl (\<lambda>s' u. update_notified (md5 u) s') s urls"

text \<open>
  \<^verbatim>\<open>Storage.get_unnotified\<close>: \<^verbatim>\<open>SELECT ... FROM bids WHERE notified = 0\<close>, with no ORDER BY. SQL
  leaves the order open; SQLite walks the table (or the index on \<open>notified\<close>) in rowid
  order, which is the order modelled.
\<close>

definition get_unnotified :: "store \<Rightarrow> BidInfo list" where
  "get_unnotified s = map row_bid (filter (\<lambda>r. notified r = 0) s)"


text \<open>\<^verbatim>\<open>Storage.count_all\<close> and \<^verbatim>\<open>Storage.clear_all\<close>.\<close>

definition count_all :: "store \<Rightarrow> nat" where
  "count_all s = length s"

definition clear_all :: "store \<Rightarrow> store" where
  "clear_all s = []"

text \<open>
  What the schema and \<open>save\<close> maintain: \<^verbatim>\<open>unique_id TEXT UNIQUE\<close>, and every row's
  \<open>unique_id\<close> is the digest of its own URL.
\<close>

definition store_inv :: "(string \<Rightarrow> string) \<Rightarrow> store \<Rightarrow> bool" where
  "store_inv md5 s =
     (distinct (map row_unique_id s) \<and> list_all (\<lambda>r. row_unique_id r = unique_id md5 (row_bid r)) s)"


text \<open>
  The inputs on which the model is run below: three records, and \<^verbatim>\<open>hashlib.md5\<close> on their
  URLs (the hex digests are the ones Python computes; no other input is hashed).
\<close>

definition bid_a :: BidInfo where
  "bid_a = \<lparr>title = ''Solar farm drone inspection'', url = ''http://a.example/1'',
            publish_date = ''2025-01-01'', source = ''ccgp'', content = ''x'', purchaser = ''p''\<rparr>"

definition bid_b :: BidInfo where
  "bid_b = \<lparr>title = ''Wind farm blade inspection'', url = ''http://b.example/2'',
            publish_date = ''2025-01-02'', source = ''ebnew'', content = [], purchaser = []\<rparr>"

definition bid_c :: BidInfo where
  "bid_c = \<lparr>title = ''Drone survey'', url = ''http://c.example/3'',
            publish_date = [], source = ''plap'', content = [], purchaser = []\<rparr>"

definition md5_table :: "string \<Rightarrow> string" where
  "md5_table u =
     (if u = ''http://a.example/1'' then ''65701cd5a37e6a35e716f0642bbdb797''
      else if u = ''http://b.example/2'' then ''6e8597b4f38925b0e742c9fb66ec5219''
      else if u = ''http://c.example/3'' then ''3f977d2da7696ce7fed47812dc62a3c6''
      else [])"

section \<open>The keyword matcher (src/matcher/keyword.py)\<close>

text \<open>Python's \<^verbatim>\<open>kw in text\<close> on strings: \<open>kw\<close> occurs in \<open>text\<close> as a contiguous piece.\<close>

definition str_in :: "string \<Rightarrow> string \<Rightarrow> bool" where
  "str_in kw text = sublist kw text"

record MatchResult =
  matched :: bool
  matched_keywords :: "string list"
  excluded_by :: "string option"

record matcher =
  include_keywords :: "string list"
  exclude_keywords :: "string list"
  must_contain_keywords :: "string list"

text \<open>
  \<^verbatim>\<open>KeywordMatcher.__init__\<close>: the three lists are stored lower-cased; an argument left out
  (\<^verbatim>\<open>None\<close>) is the empty list.
\<close>

definition KeywordMatcher ::
  "(string \<Rightarrow> string) \<Rightarrow> string list \<Rightarrow> string list option \<Rightarrow> string list option \<Rightarrow> matcher" where
  "KeywordMatcher lower inc exc must =
     \<lparr>include_keywords = map lower inc,
      exclude_keywords = map lower (case exc of None \<Rightarrow> [] | Some ks \<Rightarrow> ks),
      must_contain_keywords = map lower (case must of None \<Rightarrow> [] | Some ks \<Rightarrow> ks)\<rparr>"

text \<open>
  \<^verbatim>\<open>KeywordMatcher.match\<close>. The first loop returns at the first exclude keyword found
  (\<open>find\<close>); the second is the must-contain gate; the third collects the include keywords
  found, the fourth appends the must-contain keywords found that are not in the list yet;
  \<open>matched\<close> is \<^verbatim>\<open>len(matched_keywords) > 0\<close> of the list after both.
\<close>

definition match :: "(string \<Rightarrow> string) \<Rightarrow> matcher \<Rightarrow> string \<Rightarrow> MatchResult" where
  "match lower m text =
     (if text = [] then \<lparr>matched = False, matched_keywords = [], excluded_by = None\<rparr>
      else
        let text_lower = lower text in
        case find (\<lambda>kw. str_in kw text_lower) (exclude_keywords m) of
          Some kw \<Rightarrow> \<lparr>matched = False, matched_keywords = [], excluded_by = Some kw\<rparr>
        | None \<Rightarrow>
            if must_contain_keywords m \<noteq> [] \<and>
               \<not> list_ex (\<lambda>kw. str_in kw text_lower) (must_contain_keywords m)
            then \<lparr>matched = False, matched_keywords = [], excluded_by = None\<rparr>
            else
              let included = filter (\<lambda>kw. str_in kw text_lower) (include_keywords m);
                  found = foldl (\<lambda>acc kw. if str_in kw text_lower \<and> kw \<notin> set acc
                                             then acc @ [kw] else acc)
                            included (must_contain_keywords m)
              in \<lparr>matched = (length found > 0), matched_keywords = found, excluded_by = None\<rparr>)"

text \<open>
  Lower-casing of the ASCII letters, which is what \<^verbatim>\<open>str.lower\<close> does on ASCII text: the
  instance of \<open>lower\<close> at which the model is run on concrete inputs.
\<close>

definition ascii_lower :: "string \<Rightarrow> string" where
  "ascii_lower t =
     map (\<lambda>c. case map_of (zip ''ABCDEFGHIJKLMNOPQRSTUVWXYZ'' ''abcdefghijklmnopqrstuvwxyz'') c of
                 Some d \<Rightarrow> d | None \<Rightarrow> c) t"

section \<open>Fetching one page (src/crawler/base.py, BaseCrawler.fetch)\<close>

text \<open>
  What one \<^verbatim>\<open>session.get\<close> can end in: a response with its status code and body, or one of
  the exceptions of \<^verbatim>\<open>requests\<close> that \<open>fetch\<close> catches (\<open>RequestException\<close> stands for
  any other exception of that family). The network is a function from the attempt number to
  what that attempt ends in.
\<close>

datatype get_outcome =
    Response nat string
  | SSLError
  | Timeout
  | ConnectionError
  | RequestException

text \<open>\<^verbatim>\<open>Response.raise_for_status\<close> raises \<^verbatim>\<open>HTTPError\<close> for the codes 400 to 599.\<close>

definition raise_for_status_raises :: "nat \<Rightarrow> bool" where
  "raise_for_status_raises status = (400 \<le> status \<and> status < 600)"

text \<open>
  The truth value of a \<^verbatim>\<open>requests.Response\<close>: \<^verbatim>\<open>Response.__bool__\<close> returns \<^verbatim>\<open>self.ok\<close>,
  which is False exactly when \<^verbatim>\<open>raise_for_status\<close> raises.
\<close>

definition response_bool :: "nat \<Rightarrow> bool" where
  "response_bool status = (\<not> raise_for_status_raises status)"

text \<open>
  \<^verbatim>\<open>status_code = e.response.status_code if e.response else 'N/A'\<close> in the handler of
  \<^verbatim>\<open>HTTPError\<close>, where \<^verbatim>\<open>e.response\<close> is the response \<^verbatim>\<open>raise_for_status\<close> was called on;
  \<open>None\<close> stands for \<^verbatim>\<open>'N/A'\<close>.
\<close>

definition http_error_status_code :: "nat \<Rightarrow> nat option" where
  "http_error_status_code status = (if response_bool status then Some status else None)"

text \<open>
  What \<open>fetch\<close> does to the outside, in order: the GET of an attempt, the politeness
  delay after a success (\<^verbatim>\<open>request_delay\<close> plus jitter), and the back-off sleep of
  \<^verbatim>\<open>2 ** (attempt + 1)\<close> seconds plus jitter before the next attempt.
\<close>

datatype fetch_event = Get nat | Delay | Backoff nat

definition backoff :: "nat \<Rightarrow> nat \<Rightarrow> fetch_event list" where
  "backoff max_retries attempt =
     (if int attempt < int max_retries - 1 then [Backoff (2 ^ (attempt + 1))] else [])"

text \<open>An attempt that failed and did not return: the loop goes on with the result \<open>r\<close> of the rest.\<close>

definition next_attempt :: "nat \<Rightarrow> nat \<Rightarrow> fetch_event list \<times> string option \<Rightarrow> fetch_event list \<times> string option" where
  "next_attempt max_retries attempt r = (Get attempt # backoff max_retries attempt @ fst r, snd r)"

fun fetch_attempts :: "nat \<Rightarrow> (nat \<Rightarrow> get_outcome) \<Rightarrow> nat list \<Rightarrow> fetch_event list \<times> string option" where
  "fetch_attempts max_retries get [] = ([], None)"
| "fetch_attempts max_retries get (attempt # rest) =
     (case get attempt of
        Response status body \<Rightarrow>
          if raise_for_status_raises status then
            (if http_error_status_code status \<in> {Some 401, Some 403} then ([Get attempt], None)
             else next_attempt max_retries attempt (fetch_attempts max_retries get rest))
          else ([Get attempt, Delay], Some body)
      | SSLError \<Rightarrow> next_attempt max_retries attempt (fetch_attempts max_retries get rest)
      | Timeout \<Rightarrow> next_attempt max_retries attempt (fetch_attempts max_retries get rest)
      | ConnectionError \<Rightarrow> next_attempt max_retries attempt (fetch_attempts max_retries get rest)
      | RequestException \<Rightarrow> next_attempt max_retries attempt (fetch_attempts max_retries get rest))"

text \<open>
  \<^verbatim>\<open>BaseCrawler.fetch\<close>: \<^verbatim>\<open>for attempt in range(self.max_retries)\<close>; the events, and the
  HTML returned (\<open>None\<close> for Python's \<^verbatim>\<open>None\<close>).
\<close>

definition fetch :: "nat \<Rightarrow> (nat \<Rightarrow> get_outcome) \<Rightarrow> fetch_event list \<times> string option" where
  "fetch max_retries get = fetch_attempts max_retries get [0..<max_retries]"

section \<open>Crawling one site (src/crawler/base.py, BaseCrawler.crawl)\<close>

text \<open>
  The ten signatures of \<^verbatim>\<open>_is_blocked\<close>, in the order of the source; the seven Chinese ones
  (too many visits, requests too frequent, verification code, retry later, access refused,
  request forbidden, IP banned) are given by their UTF-8 bytes.
\<close>

definition blocked_signs :: "string list" where
  "blocked_signs =
     [ [CHR 0xE8, CHR 0xAE, CHR 0xBF, CHR 0xE9, CHR 0x97, CHR 0xAE, CHR 0xE9, CHR 0xA2, CHR 0x91,
       CHR 0xE7, CHR 0xB9, CHR 0x81],
      [CHR 0xE8, CHR 0xAF, CHR 0xB7, CHR 0xE6, CHR 0xB1, CHR 0x82, CHR 0xE8, CHR 0xBF, CHR 0x87,
       CHR 0xE4, CHR 0xBA, CHR 0x8E, CHR 0xE9, CHR 0xA2, CHR 0x91, CHR 0xE7, CHR 0xB9, CHR 0x81],
      [CHR 0xE9, CHR 0xAA, CHR 0x8C, CHR 0xE8, CHR 0xAF, CHR 0x81, CHR 0xE7, CHR 0xA0, CHR 0x81],
      ''captcha'',
      [CHR 0xE8, CHR 0xAF, CHR 0xB7, CHR 0xE7, CHR 0xA8, CHR 0x8D, CHR 0xE5, CHR 0x90, CHR 0x8E,
       CHR 0xE9, CHR 0x87, CHR 0x8D, CHR 0xE8, CHR 0xAF, CHR 0x95],
      [CHR 0xE8, CHR 0xAE, CHR 0xBF, CHR 0xE9, CHR 0x97, CHR 0xAE, CHR 0xE8, CHR 0xA2, CHR 0xAB,
       CHR 0xE6, CHR 0x8B, CHR 0x92, CHR 0xE7, CHR 0xBB, CHR 0x9D],
      ''Access Denied'',
      ''403 Forbidden'',
      [CHR 0xE8, CHR 0xAF, CHR 0xB7, CHR 0xE6, CHR 0xB1, CHR 0x82, CHR 0xE8, CHR 0xA2, CHR 0xAB,
       CHR 0xE7, CHR 0xA6, CHR 0x81, CHR 0xE6, CHR 0xAD, CHR 0xA2],
      ''IP'' @ [CHR 0xE8, CHR 0xA2, CHR 0xAB, CHR 0xE5, CHR 0xB0, CHR 0x81] ]"

text \<open>\<^verbatim>\<open>BaseCrawler._is_blocked\<close>\<close>

definition is_blocked :: "(string \<Rightarrow> string) \<Rightarrow> string \<Rightarrow> bool" where
  "is_blocked lower html = list_ex (\<lambda>sign. str_in (lower sign) (lower html)) blocked_signs"

text \<open>
  A site adapter: a subclass of \<^verbatim>\<open>BaseCrawler\<close> with its \<^verbatim>\<open>name\<close>, the list its
  \<^verbatim>\<open>get_list_urls()\<close> returns, and its \<^verbatim>\<open>parse(html)\<close>, which returns records (\<open>Inr\<close>) or
  raises (\<open>Inl\<close>, with the message).
\<close>

record adapter =
  adapter_name :: string
  get_list_urls :: "string list"
  parse :: "string \<Rightarrow> string + BidInfo list"

text \<open>
  \<^verbatim>\<open>stop_event and stop_event.is_set()\<close> at the poll before item \<open>i\<close>. The event is set by
  another thread; what the polls see is given as a function of the place of the poll, and
  \<open>None\<close> is the call without an event.
\<close>

definition is_set :: "(nat \<Rightarrow> bool) option \<Rightarrow> nat \<Rightarrow> bool" where
  "is_set stop_event i = (case stop_event of None \<Rightarrow> False | Some ev \<Rightarrow> ev i)"

text \<open>
  The loop of \<^verbatim>\<open>crawl\<close> over the URLs from position \<open>i\<close> on, with the two variables it
  updates. \<open>fetch_page i u\<close> is what \<^verbatim>\<open>self.fetch(url)\<close> returns for the URL at position \<open>i\<close>.
\<close>

fun crawl_loop ::
  "(string \<Rightarrow> string) \<Rightarrow> adapter \<Rightarrow> (nat \<Rightarrow> bool) option \<Rightarrow> (nat \<Rightarrow> string \<Rightarrow> string option) \<Rightarrow>
   nat \<Rightarrow> string list \<Rightarrow> BidInfo list \<Rightarrow> nat \<Rightarrow> BidInfo list \<times> nat" where
  "crawl_loop lower a stop_event fetch_page i [] all_bids failed_count = (all_bids, failed_count)"
| "crawl_loop lower a stop_event fetch_page i (u # us) all_bids failed_count =
     (if is_set stop_event i then (all_bids, failed_count)
      else
        case fetch_page i u of
          None \<Rightarrow> crawl_loop lower a stop_event fetch_page (Suc i) us all_bids (failed_count + 1)
        | Some html \<Rightarrow>
            if html = [] then
              crawl_loop lower a stop_event fetch_page (Suc i) us all_bids (failed_count + 1)
            else if is_blocked lower html then
              crawl_loop lower a stop_event fetch_page (Suc i) us all_bids (failed_count + 1)
            else
              (case parse a html of
                 Inl e \<Rightarrow>
                   crawl_loop lower a stop_event fetch_page (Suc i) us all_bids (failed_count + 1)
               | Inr bids \<Rightarrow>
                   crawl_loop lower a stop_event fetch_page (Suc i) us (all_bids @ bids) failed_count))"

text \<open>\<^verbatim>\<open>BaseCrawler.crawl\<close>: \<open>None\<close> is Python's \<^verbatim>\<open>None\<close>, returned when every URL failed.\<close>

definition crawl ::
  "(string \<Rightarrow> string) \<Rightarrow> adapter \<Rightarrow> (nat \<Rightarrow> bool) option \<Rightarrow> (nat \<Rightarrow> string \<Rightarrow> string option) \<Rightarrow>
   BidInfo list option" where
  "crawl lower a stop_event fetch_page =
     (let urls = get_list_urls a;
          r = crawl_loop lower a stop_event fetch_page 0 urls [] 0
      in if snd r = length urls \<and> length urls > 0 then None else Some (fst r))"

text \<open>
  What the page of one URL contributes to \<open>crawl\<close>: \<open>None\<close> when the URL counts as failed
  (\<open>fetch\<close> gave no HTML, the page carries a block signature, or \<open>parse\<close> raised), else the
  records parsed from it. The properties of \<open>crawl\<close> are stated with it.
\<close>

definition page_records :: "(string \<Rightarrow> string) \<Rightarrow> adapter \<Rightarrow> string option \<Rightarrow> BidInfo list option" where
  "page_records lower a page =
     (case page of
        None \<Rightarrow> None
      | Some html \<Rightarrow>
          if html = [] \<or> is_blocked lower html then None
          else (case parse a html of Inl e \<Rightarrow> None | Inr bids \<Rightarrow> Some bids))"

section \<open>The relevance guard (src/ai_guard.py)\<close>

text \<open>
  The two attributes of an \<^verbatim>\<open>AIGuard\<close> that decide whether a request is made. (After
  \<^verbatim>\<open>update_config(None)\<close> only \<open>enabled\<close> is set, and \<open>api_key\<close> is never read.)
\<close>

record AIGuard =
  enabled :: bool
  api_key :: string

text \<open>
  What one pass through the body of the retry loop ends in. Either \<^verbatim>\<open>requests.post\<close> raises
  \<^verbatim>\<open>ConnectionError\<close> or \<^verbatim>\<open>Timeout\<close>, or there is a response, with its status code, its text,
  and how reading it as an answer ends when the status is 200:
  \<^item> \<open>Unreadable\<close>: something raises that the inner handler of \<^verbatim>\<open>JSONDecodeError\<close> does not
    catch (\<^verbatim>\<open>resp.json()\<close>, a missing key, \<^verbatim>\<open>analysis.get\<close> on a value that is no dict),
    with the exception's text;
  \<^item> \<open>Answer\<close>: the answer is read, from its JSON or by the text fallback, as
    \<^verbatim>\<open>(is_relevant, reason)\<close>.
\<close>

datatype answer = Unreadable string | Answer bool string

datatype post_outcome =
    PostConnectionError
  | PostTimeout
  | PostResponse nat string answer

datatype guard_exception =
    NetworkException
  | HttpException nat string
  | AnswerException string

text \<open>
  The second component of the returned pair. The messages are Chinese texts with a value
  formatted in; each is kept as a constructor with that value:
  \<^item> \<open>AI_not_enabled\<close> and \<open>AI_no_key\<close>: the two fixed texts of the early returns;
  \<^item> \<open>AI_network_error n\<close>: the f-string saying that the network failed and that \<open>n\<close>
    attempts (\<^verbatim>\<open>{max_retries}\<close>) were made;
  \<^item> \<open>AI_install_requests\<close>: the text of the \<^verbatim>\<open>ImportError\<close> handler;
  \<^item> \<open>AI_request_error e\<close>: the f-string with the first 50 characters of \<^verbatim>\<open>str(e)\<close>;
  \<^item> \<open>AI_said r\<close>: the reason read from the answer.
\<close>

datatype reason =
    AI_not_enabled
  | AI_no_key
  | AI_network_error nat
  | AI_install_requests
  | AI_request_error guard_exception
  | AI_said string

text \<open>
  How a call ends: it returns a pair, it raises, or control falls off the end of the
  function, which in Python returns \<^verbatim>\<open>None\<close>.
\<close>

datatype guard_result =
    Returned bool reason
  | Raised guard_exception
  | ReturnedNone

definition max_retries_ai :: nat where
  "max_retries_ai = 3"

text \<open>The outer handler \<^verbatim>\<open>except Exception as e\<close>.\<close>

definition outer_handler :: "bool \<Rightarrow> guard_exception \<Rightarrow> guard_result" where
  "outer_handler raise_on_error e =
     (if raise_on_error then Raised e else Returned True (AI_request_error e))"

text \<open>
  The handler of \<^verbatim>\<open>ConnectionError\<close> and \<^verbatim>\<open>Timeout\<close> inside the loop; \<open>rest\<close> is how the
  remaining attempts end. Its \<^verbatim>\<open>raise\<close> is caught by the outer handler, which raises again.
\<close>

definition network_handler :: "bool \<Rightarrow> nat \<Rightarrow> guard_result \<Rightarrow> guard_result" where
  "network_handler raise_on_error attempt rest =
     (if int attempt < int max_retries_ai - 1 then rest
      else if raise_on_error then outer_handler raise_on_error NetworkException
      else Returned True (AI_network_error max_retries_ai))"

fun guard_attempts :: "bool \<Rightarrow> (nat \<Rightarrow> post_outcome) \<Rightarrow> nat list \<Rightarrow> guard_result" where
  "guard_attempts raise_on_error post [] = ReturnedNone"
| "guard_attempts raise_on_error post (attempt # rest) =
     (case post attempt of
        PostConnectionError \<Rightarrow>
          network_handler raise_on_error attempt (guard_attempts raise_on_error post rest)
      | PostTimeout \<Rightarrow>
          network_handler raise_on_error attempt (guard_attempts raise_on_error post rest)
      | PostResponse status_code body ans \<Rightarrow>
          if status_code \<noteq> 200 then outer_handler raise_on_error (HttpException status_code body)
          else
            (case ans of
               Unreadable msg \<Rightarrow> outer_handler raise_on_error (AnswerException msg)
             | Answer is_relevant why \<Rightarrow> Returned is_relevant (AI_said why)))"

text \<open>
  \<^verbatim>\<open>AIGuard.check_relevance(title, content, raise_on_error)\<close>. \<open>requests_found\<close> says whether
  \<^verbatim>\<open>import requests\<close> succeeds; \<open>post\<close> gives what each attempt ends in. The title and the
  content only go into the request and the log.
\<close>

definition check_relevance ::
  "AIGuard \<Rightarrow> string \<Rightarrow> string \<Rightarrow> bool \<Rightarrow> bool \<Rightarrow> (nat \<Rightarrow> post_outcome) \<Rightarrow> guard_result" where
  "check_relevance g title_arg content_arg raise_on_error requests_found post =
     (if \<not> enabled g then Returned True AI_not_enabled
      else if api_key g = [] then Returned True AI_no_key
      else if \<not> requests_found then Returned True AI_install_requests
      else guard_attempts raise_on_error post [0..<max_retries_ai])"

section \<open>The notification fan-out (src/gui.py)\<close>

text \<open>
  A contact as the contact dialog builds it: all five keys are present, \<open>email\<close> is
  \<^verbatim>\<open>None\<close> or a dict with an address.
\<close>

record email_config =
  address :: string
  password :: string

record contact =
  contact_name :: string
  contact_enabled :: bool
  phone :: string
  wechat_token :: string
  email :: "email_config option"

datatype channel = Email | SMS | WeChat | Voice

text \<open>
  What the call of a channel's notifier (its constructor, then \<^verbatim>\<open>send\<close> or \<^verbatim>\<open>call\<close>) ends in:
  a true value, a false value, or an exception with its text.
\<close>

datatype send_outcome = SendTrue | SendFalse | SendRaised string

text \<open>The switches and the two settings of the window that the fan-out reads.\<close>

record gui_config =
  email_enabled :: bool
  sms_enabled :: bool
  wechat_enabled :: bool
  voice_enabled :: bool
  sms_access_key_id :: string
  voice_tts_code :: string

text \<open>
  What the fan-out does to the outside: \<open>Attempt i ch r\<close> is the call of channel \<open>ch\<close> for
  the contact at position \<open>i\<close>, which ended in \<open>r\<close> and was logged as sent (\<open>SendTrue\<close>),
  failed (\<open>SendFalse\<close>) or raised; every helper has the call and the log lines inside
  \<^verbatim>\<open>try ... except Exception\<close>. \<open>NoAuthCode i\<close> is the log line for an e-mail contact without
  a password, for whom no call is made.
\<close>

datatype dispatch_event = Attempt nat channel send_outcome | NoAuthCode nat

definition send_email_to_contact ::
  "(nat \<Rightarrow> channel \<Rightarrow> send_outcome) \<Rightarrow> nat \<Rightarrow> contact \<Rightarrow> BidInfo list \<Rightarrow> dispatch_event list" where
  "send_email_to_contact send i c bids =
     (case email c of
        None \<Rightarrow> []
      | Some email_cfg \<Rightarrow>
          if bids = [] then []
          else if address email_cfg = [] then []
          else if password email_cfg = [] then [NoAuthCode i]
          else [Attempt i Email (send i Email)])"

definition send_sms_to_contact ::
  "(nat \<Rightarrow> channel \<Rightarrow> send_outcome) \<Rightarrow> nat \<Rightarrow> contact \<Rightarrow> BidInfo list \<Rightarrow> dispatch_event list" where
  "send_sms_to_contact send i c bids =
     (if phone c = [] \<or> bids = [] then [] else [Attempt i SMS (send i SMS)])"

definition send_wechat_to_contact ::
  "(nat \<Rightarrow> channel \<Rightarrow> send_outcome) \<Rightarrow> nat \<Rightarrow> contact \<Rightarrow> BidInfo list \<Rightarrow> dispatch_event list" where
  "send_wechat_to_contact send i c bids =
     (if wechat_token c = [] \<or> bids = [] then [] else [Attempt i WeChat (send i WeChat)])"

definition send_voice_to_contact ::
  "gui_config \<Rightarrow> (nat \<Rightarrow> channel \<Rightarrow> send_outcome) \<Rightarrow> nat \<Rightarrow> contact \<Rightarrow> BidInfo list \<Rightarrow>
   dispatch_event list" where
  "send_voice_to_contact cfg send i c bids =
     (if phone c = [] \<or> bids = [] \<or> voice_tts_code cfg = [] then []
      else [Attempt i Voice (send i Voice)])"

text \<open>The body of \<^verbatim>\<open>for contact in self.contacts\<close>.\<close>

definition notify_contact ::
  "gui_config \<Rightarrow> (nat \<Rightarrow> channel \<Rightarrow> send_outcome) \<Rightarrow> nat \<Rightarrow> contact \<Rightarrow> BidInfo list \<Rightarrow>
   dispatch_event list" where
  "notify_contact cfg send i c bids =
     (if \<not> contact_enabled c then []
      else
        (if email_enabled cfg \<and> email c \<noteq> None then send_email_to_contact send i c bids else []) @
        (if sms_enabled cfg \<and> phone c \<noteq> [] \<and> sms_access_key_id cfg \<noteq> []
         then send_sms_to_contact send i c bids else []) @
        (if wechat_enabled cfg \<and> wechat_token c \<noteq> [] then send_wechat_to_contact send i c bids else []) @
        (if voice_enabled cfg \<and> phone c \<noteq> [] \<and> voice_tts_code cfg \<noteq> []
         then send_voice_to_contact cfg send i c bids else []))"

text \<open>
  The end of \<^verbatim>\<open>_do_crawl\<close>, from \<^verbatim>\<open>unnotified_bids = core.storage.get_unnotified()\<close> on: the
  events, and the table after \<^verbatim>\<open>mark_notified([b.url for b in unnotified_bids])\<close>.
\<close>

definition notify_unnotified ::
  "(string \<Rightarrow> string) \<Rightarrow> gui_config \<Rightarrow> contact list \<Rightarrow> (nat \<Rightarrow> channel \<Rightarrow> send_outcome) \<Rightarrow> store \<Rightarrow>
   dispatch_event list \<times> store" where
  "notify_unnotified md5 cfg contacts send s =
     (let unnotified_bids = get_unnotified s in
      if unnotified_bids = [] then ([], s)
      else (concat (map (\<lambda>p. notify_contact cfg send (fst p) (snd p) unnotified_bids)
                        (enumerate 0 contacts)),
            mark_notified md5 s (UrlList (map url unnotified_bids))))"

text \<open>The (contact, channel) pairs whose notifier was called, in order.\<close>

fun attempted :: "dispatch_event list \<Rightarrow> (nat \<times> channel) list" where
  "attempted [] = []"
| "attempted (Attempt i ch r # es) = (i, ch) # attempted es"
| "attempted (NoAuthCode i # es) = attempted es"

text \<open>
  When a contact is due a call on a channel: the contact is enabled, the channel is switched
  on, and the contact (and the window) have what the channel needs. The properties of the
  fan-out are stated with it.
\<close>

definition channel_due :: "gui_config \<Rightarrow> contact \<Rightarrow> channel \<Rightarrow> bool" where
  "channel_due cfg c ch =
     (contact_enabled c \<and>
      (case ch of
         Email \<Rightarrow> email_enabled cfg \<and>
                  (case email c of None \<Rightarrow> False
                   | Some e \<Rightarrow> address e \<noteq> [] \<and> password e \<noteq> [])
       | SMS \<Rightarrow> sms_enabled cfg \<and> phone c \<noteq> [] \<and> sms_access_key_id cfg \<noteq> []
       | WeChat \<Rightarrow> wechat_enabled cfg \<and> wechat_token c \<noteq> []
       | Voice \<Rightarrow> voice_enabled cfg \<and> phone c \<noteq> [] \<and> voice_tts_code cfg \<noteq> []))"

section \<open>One round (MonitorCore.run_once and src/gui.py)\<close>

text \<open>
  The places at which the stop event is polled during one \<^verbatim>\<open>_do_crawl\<close>: at its start, before
  the adapter at a position, before the URL at a position of the adapter at a position, and
  after \<^verbatim>\<open>run_once\<close> has returned. The event is set by another thread; what the polls see
  is a function of the place.
\<close>

datatype poll = AtStart | BeforeAdapter nat | BeforeUrl nat nat | AfterRound

record round_state =
  round_store :: store
  new_count :: nat
  invoked :: "nat list"
  failed_adapters :: "nat list"
  progress :: "(nat \<times> nat \<times> string) list"

text \<open>
  Modelled from the spec: \<^verbatim>\<open>MonitorCore.run_once\<close> (module \<^verbatim>\<open>monitor_core\<close>, imported by
  src/gui.py and src/server/app.py) is not among the source files. This is the step that
  section 4.7 of the spec words as: classify results through KeywordMatcher then optionally
  RelevanceGuard, persist via DedupStore. It is run on the records of one adapter: \<open>accept\<close>
  is the classification, a record is persisted with \<open>notified = false\<close> (section 3), and
  only a newly inserted one is counted. \<open>clock n\<close> is the second in which the INSERT into a
  table of \<open>n\<close> rows runs.
\<close>

fun persist_new ::
  "(string \<Rightarrow> string) \<Rightarrow> (BidInfo \<Rightarrow> bool) \<Rightarrow> (nat \<Rightarrow> nat) \<Rightarrow> BidInfo list \<Rightarrow> store \<Rightarrow> nat \<Rightarrow>
   store \<times> nat" where
  "persist_new md5 accept clock [] s n = (s, n)"
| "persist_new md5 accept clock (bid # bids) s n =
     (if accept bid then
        persist_new md5 accept clock bids
          (snd (save md5 s bid False (clock (length s))))
          (if fst (save md5 s bid False (clock (length s))) then n + 1 else n)
      else persist_new md5 accept clock bids s n)"

text \<open>
  Modelled from the spec: the loop of \<^verbatim>\<open>MonitorCore.run_once\<close>, which is not among the source
  files. Section 4.7 of the spec: for each adapter in order, check stopSignal; if set, abort
  the round immediately without advancing further adapters, but without discarding records
  already stored in this round; otherwise invoke the adapter's fetch strategy, classify
  results, persist via DedupStore, and report (current, total, siteName) through
  progressCallback after each adapter; if all URLs of an adapter fail, that adapter is
  marked failed and the round continues with the next adapter. The adapter is invoked
  through \<open>crawl\<close> above, with the stop event; \<open>fetch_page i\<close> is the fetch of the adapter
  at position \<open>i\<close>.
\<close>

fun run_adapters ::
  "(string \<Rightarrow> string) \<Rightarrow> (string \<Rightarrow> string) \<Rightarrow> (BidInfo \<Rightarrow> bool) \<Rightarrow> (nat \<Rightarrow> nat) \<Rightarrow>
   (nat \<Rightarrow> nat \<Rightarrow> string \<Rightarrow> string option) \<Rightarrow> (poll \<Rightarrow> bool) \<Rightarrow> nat \<Rightarrow> nat \<Rightarrow> adapter list \<Rightarrow>
   round_state \<Rightarrow> round_state" where
  "run_adapters md5 lower accept clock fetch_page stop n_sites i [] st = st"
| "run_adapters md5 lower accept clock fetch_page stop n_sites i (a # as) st =
     (if stop (BeforeAdapter i) then st
      else
        run_adapters md5 lower accept clock fetch_page stop n_sites (Suc i) as
          ((case crawl lower a (Some (\<lambda>j. stop (BeforeUrl i j))) (fetch_page i) of
              None \<Rightarrow> st\<lparr>failed_adapters := failed_adapters st @ [i]\<rparr>
            | Some bids \<Rightarrow>
                st\<lparr>round_store := fst (persist_new md5 accept clock bids (round_store st) (new_count st)),
                   new_count := snd (persist_new md5 accept clock bids (round_store st) (new_count st))\<rparr>)
           \<lparr>invoked := invoked st @ [i],
            progress := progress st @ [(i + 1, n_sites, adapter_name a)]\<rparr>))"

text \<open>
  Modelled from the spec: \<^verbatim>\<open>MonitorCore.run_once(progress_callback, stop_event)\<close>, whose
  result the callers read \<^verbatim>\<open>new_count\<close> from.
\<close>

definition run_once ::
  "(string \<Rightarrow> string) \<Rightarrow> (string \<Rightarrow> string) \<Rightarrow> (BidInfo \<Rightarrow> bool) \<Rightarrow> (nat \<Rightarrow> nat) \<Rightarrow>
   (nat \<Rightarrow> nat \<Rightarrow> string \<Rightarrow> string option) \<Rightarrow> (poll \<Rightarrow> bool) \<Rightarrow> adapter list \<Rightarrow> store \<Rightarrow> round_state" where
  "run_once md5 lower accept clock fetch_page stop adapters s =
     run_adapters md5 lower accept clock fetch_page stop (length adapters) 0 adapters
       \<lparr>round_store = s, new_count = 0, invoked = [], failed_adapters = [], progress = []\<rparr>"

text \<open>
  The records that the adapters at the positions before \<open>k\<close> return when each is crawled to
  its end, no poll of the stop event seeing it set; an adapter all of whose URLs failed
  (Python's \<^verbatim>\<open>None\<close>) contributes none. The properties of a round are stated with it.
\<close>

definition crawled_before ::
  "(string \<Rightarrow> string) \<Rightarrow> (nat \<Rightarrow> nat \<Rightarrow> string \<Rightarrow> string option) \<Rightarrow> adapter list \<Rightarrow> nat \<Rightarrow> BidInfo list" where
  "crawled_before lower fetch_page adapters k =
     concat (map (\<lambda>i. case crawl lower (adapters ! i) None (fetch_page i) of
                         None \<Rightarrow> [] | Some bids \<Rightarrow> bids) [0..<k])"

text \<open>
  \<^verbatim>\<open>BidMonitorGUI._do_crawl\<close> (src/gui.py) around the round: the poll at its start, the call of
  \<^verbatim>\<open>run_once\<close>, \<^verbatim>\<open>was_stopped\<close>, the return when the round was stopped and found nothing new,
  and the fan-out otherwise. (Building the \<^verbatim>\<open>MonitorCore\<close> from the window's fields, and the
  outer handler that logs any exception, are left out.)
\<close>

datatype crawl_outcome =
    Cancelled
  | StoppedNothingNew round_state
  | Notified round_state "dispatch_event list" store

definition do_crawl ::
  "(string \<Rightarrow> string) \<Rightarrow> (string \<Rightarrow> string) \<Rightarrow> (BidInfo \<Rightarrow> bool) \<Rightarrow> (nat \<Rightarrow> nat) \<Rightarrow>
   (nat \<Rightarrow> nat \<Rightarrow> string \<Rightarrow> string option) \<Rightarrow> (poll \<Rightarrow> bool) \<Rightarrow> adapter list \<Rightarrow>
   gui_config \<Rightarrow> contact list \<Rightarrow> (nat \<Rightarrow> channel \<Rightarrow> send_outcome) \<Rightarrow> store \<Rightarrow> crawl_outcome" where
  "do_crawl md5 lower accept clock fetch_page stop adapters cfg contacts send s =
     (if stop AtStart then Cancelled
      else
        let result = run_once md5 lower accept clock fetch_page stop adapters s;
            was_stopped = stop AfterRound
        in if was_stopped \<and> \<not> new_count result > 0 then StoppedNothingNew result
           else Notified result
                  (fst (notify_unnotified md5 cfg contacts send (round_store result)))
                  (snd (notify_unnotified md5 cfg contacts send (round_store result))))"

section \<open>Inputs on which the model is run\<close>

text \<open>The table after \<open>bid_a\<close> was saved in second 1 and \<open>bid_b\<close> in second 2.\<close>

definition two_rows :: store where
  "two_rows = snd (save md5_table (snd (save md5_table [] bid_a False 1)) bid_b False 2)"

text \<open>Two contacts and a window in which every channel is switched on but voice has no template.\<close>

definition contact_li :: contact where
  "contact_li = \<lparr>contact_name = ''Li'', contact_enabled = True, phone = [], wechat_token = ''tok'',
                 email = Some \<lparr>address = ''li@example.com'', password = ''code''\<rparr>\<rparr>"

definition contact_wang :: contact where
  "contact_wang = \<lparr>contact_name = ''Wang'', contact_enabled = True, phone = ''13800000000'',
                   wechat_token = [], email = None\<rparr>"

definition window :: gui_config where
  "window = \<lparr>email_enabled = True, sms_enabled = True, wechat_enabled = True, voice_enabled = True,
             sms_access_key_id = ''key'', voice_tts_code = []\<rparr>"

text \<open>Channels of which the e-mail one raises, the chat one fails and the others succeed.\<close>

definition flaky_send :: "nat \<Rightarrow> channel \<Rightarrow> send_outcome" where
  "flaky_send i ch =
     (case ch of Email \<Rightarrow> SendRaised ''SMTP refused'' | WeChat \<Rightarrow> SendFalse
      | SMS \<Rightarrow> SendTrue | Voice \<Rightarrow> SendTrue)"

text \<open>
  Three sites of one list page each; the pages of the first two parse to one record, the
  third site is never reached in the run below. Every fetch returns the same small page.
\<close>

definition site_a :: adapter where
  "site_a = \<lparr>adapter_name = ''ccgp'', get_list_urls = [''http://a.example/list''],
             parse = (\<lambda>html. Inr [bid_a])\<rparr>"

definition site_b :: adapter where
  "site_b = \<lparr>adapter_name = ''ebnew'', get_list_urls = [''http://b.example/list''],
             parse = (\<lambda>html. Inr [bid_b])\<rparr>"

definition site_c :: adapter where
  "site_c = \<lparr>adapter_name = ''plap'', get_list_urls = [''http://c.example/list''],
             parse = (\<lambda>html. Inr [bid_c])\<rparr>"

definition small_page :: "nat \<Rightarrow> nat \<Rightarrow> string \<Rightarrow> string option" where
  "small_page i j u = Some ''<li>Tender</li>''"

text \<open>The stop event is seen set from the poll before the third adapter on.\<close>

definition stop_before_third :: "poll \<Rightarrow> bool" where
  "stop_before_third p = (p = BeforeAdapter 2 \<or> p = AfterRound)"

text \<open>
  The round over the three sites on an empty table, stopped before the third: every record
  is accepted, and the INSERT into a table of \<open>n\<close> rows runs in second \<open>100 + n\<close>.
\<close>

definition stopped_round :: round_state where
  "stopped_round = run_once md5_table ascii_lower (\<lambda>b. True) (\<lambda>n. 100 + n) small_page
                     stop_before_third [site_a, site_b, site_c] []"

text \<open>A site of two list pages: the fetch of the first fails, the second page parses.\<close>

definition site_two_pages :: adapter where
  "site_two_pages = \<lparr>adapter_name = ''ccgp'',
                     get_list_urls = [''http://a.example/p1'', ''http://a.example/p2''],
                     parse = (\<lambda>html. Inr [bid_a])\<rparr>"

definition second_page_only :: "nat \<Rightarrow> string \<Rightarrow> string option" where
  "second_page_only i u = (if i = 1 then Some ''<li>Tender</li>'' else None)"

section \<open>Properties of the store\<close>

lemma exists_bid_iff: "exists_bid md5 s bid \<longleftrightarrow> unique_id md5 bid \<in> row_unique_id ` set s"
  unfolding exists_bid_def find_None_iff by force

lemma store_inv_empty: "store_inv md5 []"
  by (simp add: store_inv_def)

lemma store_inv_save: "store_inv md5 s \<Longrightarrow> store_inv md5 (snd (save md5 s bid n now))"
  by (auto simp: store_inv_def save_def exists_bid_iff)

lemma one_row_per_unique_id:
  assumes "distinct (map row_unique_id s)" and "uid \<in> row_unique_id ` set s"
  shows "length (filter (\<lambda>r. row_unique_id r = uid) s) = 1"
  using assms
proof (induction s)
  case Nil
  then show ?case by simp
next
  case (Cons r s)
  show ?case
  proof (cases "row_unique_id r = uid")
    case True
    with Cons.prems(1) have "filter (\<lambda>r. row_unique_id r = uid) s = []"
      unfolding filter_empty_conv by (metis distinct.simps(2) image_eqI list.simps(9) list.set_map)
    with True show ?thesis by simp
  next
    case False
    with Cons show ?thesis by auto
  qed
qed

lemma update_notified_uids [simp]: "map row_unique_id (update_notified uid s) = map row_unique_id s"
  by (induction s) (auto simp: update_notified_def)

lemma update_notified_length [simp]: "length (update_notified uid s) = length s"
  by (simp add: update_notified_def)

lemma store_inv_update_notified: "store_inv md5 s \<Longrightarrow> store_inv md5 (update_notified uid s)"
  unfolding store_inv_def update_notified_uids
  by (auto simp: update_notified_def list_all_iff)

lemma update_notified_at:
  assumes "distinct (map row_unique_id s)" and "i < length s" and "row_unique_id (s ! i) = uid"
  shows "update_notified uid s = s[i := (s ! i)\<lparr>notified := 1\<rparr>]"
proof (rule nth_equalityI)
  show "length (update_notified uid s) = length (s[i := (s ! i)\<lparr>notified := 1\<rparr>])"
    by simp
next
  fix j assume "j < length (update_notified uid s)"
  then have j: "j < length s" by simp
  show "update_notified uid s ! j = s[i := (s ! i)\<lparr>notified := 1\<rparr>] ! j"
  proof (cases "j = i")
    case True
    with assms j show ?thesis by (simp add: update_notified_def)
  next
    case False
    with assms j have "row_unique_id (s ! j) \<noteq> uid"
      by (metis distinct_conv_nth length_map nth_map)
    with False j show ?thesis by (simp add: update_notified_def)
  qed
qed

lemma two_rows_eq:
  "two_rows =
     [\<lparr>row_unique_id = ''65701cd5a37e6a35e716f0642bbdb797'', row_bid = bid_a, notified = 0, created_at = 1\<rparr>,
      \<lparr>row_unique_id = ''6e8597b4f38925b0e742c9fb66ec5219'', row_bid = bid_b, notified = 0, created_at = 2\<rparr>]"
  by (simp add: two_rows_def save_def exists_bid_def unique_id_def md5_table_def bid_a_def bid_b_def)

text \<open>
  C1. Two records with the same URL, saved one after the other, whatever their other fields
  are: the second \<open>save\<close> returns False and changes nothing. When the store did not hold
  the URL before, the first \<open>save\<close> returns True and the table then has exactly one row
  whose \<open>unique_id\<close> is the digest of the URL; and on any table with distinct \<open>unique_id\<close>s
  (the UNIQUE constraint) there is exactly one such row afterwards.
\<close>

theorem save_twice_same_url:
  assumes "url r2 = url r1"
  shows "fst (save md5 (snd (save md5 s r1 n1 t1)) r2 n2 t2) = False
       \<and> snd (save md5 (snd (save md5 s r1 n1 t1)) r2 n2 t2) = snd (save md5 s r1 n1 t1)
       \<and> (\<not> exists_bid md5 s r1 \<longrightarrow>
            fst (save md5 s r1 n1 t1) = True
            \<and> length (filter (\<lambda>r. row_unique_id r = md5 (url r1))
                        (snd (save md5 (snd (save md5 s r1 n1 t1)) r2 n2 t2))) = 1)
       \<and> (distinct (map row_unique_id s) \<longrightarrow>
            length (filter (\<lambda>r. row_unique_id r = md5 (url r1))
                      (snd (save md5 (snd (save md5 s r1 n1 t1)) r2 n2 t2))) = 1)"
proof -
  let ?s1 = "snd (save md5 s r1 n1 t1)"
  have uid: "unique_id md5 r2 = unique_id md5 r1"
    using assms by (simp add: unique_id_def)
  have ex2: "exists_bid md5 ?s1 r2"
    by (simp add: save_def exists_bid_iff uid)
  then have s2: "save md5 ?s1 r2 n2 t2 = (False, ?s1)"
    by (simp add: save_def)
  have fresh: "\<not> exists_bid md5 s r1 \<longrightarrow>
      fst (save md5 s r1 n1 t1) = True \<and> length (filter (\<lambda>r. row_unique_id r = md5 (url r1)) ?s1) = 1"
  proof
    assume a: "\<not> exists_bid md5 s r1"
    then have "filter (\<lambda>r. row_unique_id r = md5 (url r1)) s = []"
      unfolding exists_bid_iff unique_id_def filter_empty_conv by force
    with a show "fst (save md5 s r1 n1 t1) = True
        \<and> length (filter (\<lambda>r. row_unique_id r = md5 (url r1)) ?s1) = 1"
      by (simp add: save_def unique_id_def)
  qed
  have uniq: "distinct (map row_unique_id s) \<longrightarrow>
      length (filter (\<lambda>r. row_unique_id r = md5 (url r1)) ?s1) = 1"
  proof
    assume d: "distinct (map row_unique_id s)"
    show "length (filter (\<lambda>r. row_unique_id r = md5 (url r1)) ?s1) = 1"
    proof (cases "exists_bid md5 s r1")
      case True
      then have "md5 (url r1) \<in> row_unique_id ` set s"
        by (simp add: exists_bid_iff unique_id_def)
      from one_row_per_unique_id [OF d this] True show ?thesis
        by (simp add: save_def)
    next
      case False
      with fresh show ?thesis by blast
    qed
  qed
  from fresh uniq show ?thesis
    unfolding s2 by simp
qed

theorem save_twice_same_url_witness:
  "\<forall>md5. url (bid_a\<lparr>title := ''Another title'', source := ''ebnew''\<rparr>) = url bid_a
     \<and> \<not> exists_bid md5 [] bid_a
     \<and> fst (save md5 [] bid_a False 5) = True
     \<and> fst (save md5 (snd (save md5 [] bid_a False 5))
               (bid_a\<lparr>title := ''Another title'', source := ''ebnew''\<rparr>) False 9) = False
     \<and> length (filter (\<lambda>r. row_unique_id r = md5 (url bid_a))
                 (snd (save md5 (snd (save md5 [] bid_a False 5))
                         (bid_a\<lparr>title := ''Another title'', source := ''ebnew''\<rparr>) False 9))) = 1"
proof
  fix md5 :: "string \<Rightarrow> string"
  let ?r2 = "bid_a\<lparr>title := ''Another title'', source := ''ebnew''\<rparr>"
  have h1: "url ?r2 = url bid_a" by simp
  have h2: "\<not> exists_bid md5 [] bid_a" by (simp add: exists_bid_def)
  from save_twice_same_url [OF h1, of md5 "[]" False 5 False 9] h1 h2
  show "url ?r2 = url bid_a
     \<and> \<not> exists_bid md5 [] bid_a
     \<and> fst (save md5 [] bid_a False 5) = True
     \<and> fst (save md5 (snd (save md5 [] bid_a False 5)) ?r2 False 9) = False
     \<and> length (filter (\<lambda>r. row_unique_id r = md5 (url bid_a))
                 (snd (save md5 (snd (save md5 [] bid_a False 5)) ?r2 False 9))) = 1"
    by blast
qed

text \<open>
  C10. For a record whose digest is the \<open>unique_id\<close> of the row at position \<open>i\<close> of a table
  with distinct \<open>unique_id\<close>s (the UNIQUE constraint), \<open>mark_notified\<close> called with the list
  of its URL, with the list of the record, and with the record alone all give the same
  table: the one in which row \<open>i\<close> has \<open>notified = 1\<close> and nothing else has changed.
\<close>

theorem mark_notified_forms_agree:
  assumes "distinct (map row_unique_id s)" and "i < length s"
    and "row_unique_id (s ! i) = unique_id md5 r"
  shows "mark_notified md5 s (UrlList [url r]) = s[i := (s ! i)\<lparr>notified := 1\<rparr>]
       \<and> mark_notified md5 s (BidList [r]) = s[i := (s ! i)\<lparr>notified := 1\<rparr>]
       \<and> mark_notified md5 s (Single r) = s[i := (s ! i)\<lparr>notified := 1\<rparr>]"
  using update_notified_at [OF assms] assms(3)
  by (simp add: unique_id_def)

theorem mark_notified_forms_agree_witness:
  "distinct (map row_unique_id two_rows) \<and> 1 < length two_rows
   \<and> row_unique_id (two_rows ! 1) = unique_id md5_table bid_b
   \<and> mark_notified md5_table two_rows (UrlList [url bid_b]) =
       [\<lparr>row_unique_id = ''65701cd5a37e6a35e716f0642bbdb797'', row_bid = bid_a, notified = 0, created_at = 1\<rparr>,
        \<lparr>row_unique_id = ''6e8597b4f38925b0e742c9fb66ec5219'', row_bid = bid_b, notified = 1, created_at = 2\<rparr>]
   \<and> mark_notified md5_table two_rows (BidList [bid_b]) = mark_notified md5_table two_rows (UrlList [url bid_b])
   \<and> mark_notified md5_table two_rows (Single bid_b) = mark_notified md5_table two_rows (UrlList [url bid_b])"
proof -
  have h1: "distinct (map row_unique_id two_rows)"
    by (simp add: two_rows_eq)
  have h2: "1 < length two_rows"
    by (simp add: two_rows_eq)
  have h3: "row_unique_id (two_rows ! 1) = unique_id md5_table bid_b"
    by (simp add: two_rows_eq unique_id_def md5_table_def bid_b_def)
  have upd: "two_rows[1 := (two_rows ! 1)\<lparr>notified := 1\<rparr>] =
       [\<lparr>row_unique_id = ''65701cd5a37e6a35e716f0642bbdb797'', row_bid = bid_a, notified = 0, created_at = 1\<rparr>,
        \<lparr>row_unique_id = ''6e8597b4f38925b0e742c9fb66ec5219'', row_bid = bid_b, notified = 1, created_at = 2\<rparr>]"
    by (simp add: two_rows_eq)
  from mark_notified_forms_agree [OF h1 h2 h3] h1 h2 h3 upd
  show ?thesis by simp
qed







section \<open>Properties of the keyword matcher\<close>

lemma match_excluded_aux:
  assumes "text \<noteq> []" and "find (\<lambda>kw. str_in kw (lower text)) (exclude_keywords m) = Some kw"
  shows "match lower m text = \<lparr>matched = False, matched_keywords = [], excluded_by = Some kw\<rparr>"
  using assms by (simp add: match_def)

lemma found_keywords_set:
  "set (foldl (\<lambda>acc kw. if str_in kw t \<and> kw \<notin> set acc then acc @ [kw] else acc) acc ks) =
     set acc \<union> {kw \<in> set ks. str_in kw t}"
  by (induction ks arbitrary: acc) auto

lemma match_keywords_union:
  assumes "text \<noteq> []"
    and "find (\<lambda>kw. str_in kw (lower text)) (exclude_keywords m) = None"
    and "must_contain_keywords m = [] \<or> list_ex (\<lambda>kw. str_in kw (lower text)) (must_contain_keywords m)"
  shows "set (matched_keywords (match lower m text)) =
           {kw \<in> set (include_keywords m). str_in kw (lower text)} \<union>
           {kw \<in> set (must_contain_keywords m). str_in kw (lower text)}"
  using assms by (auto simp: match_def Let_def found_keywords_set)

lemma match_gate_passed_is_matched:
  assumes "text \<noteq> []"
    and "find (\<lambda>kw. str_in kw (lower text)) (exclude_keywords m) = None"
    and "kw \<in> set (must_contain_keywords m)" and "str_in kw (lower text)"
  shows "matched (match lower m text)"
proof -
  let ?inc = "filter (\<lambda>kw. str_in kw (lower text)) (include_keywords m)"
  have keeps: "set acc \<subseteq> set (foldl (\<lambda>acc kw. if str_in kw (lower text) \<and> kw \<notin> set acc
                                             then acc @ [kw] else acc) acc ks)" for acc ks
    by (induction ks arbitrary: acc) (auto, force+)
  have adds: "kw \<in> set ks \<Longrightarrow>
      kw \<in> set (foldl (\<lambda>acc kw. if str_in kw (lower text) \<and> kw \<notin> set acc
                                   then acc @ [kw] else acc) acc ks)" for acc ks
  proof (induction ks arbitrary: acc)
    case Nil
    then show ?case by simp
  next
    case (Cons k ks)
    show ?case
    proof (cases "k = kw")
      case True
      have "kw \<in> set (if str_in kw (lower text) \<and> kw \<notin> set acc then acc @ [kw] else acc)"
        using assms(4) by simp
      with keeps show ?thesis
        unfolding True by (simp only: foldl.simps) blast
    next
      case False
      with Cons show ?thesis by simp
    qed
  qed
  from adds [OF assms(3), of ?inc]
  have "foldl (\<lambda>acc kw. if str_in kw (lower text) \<and> kw \<notin> set acc then acc @ [kw] else acc)
          ?inc (must_contain_keywords m) \<noteq> []"
    by auto
  moreover have "list_ex (\<lambda>kw. str_in kw (lower text)) (must_contain_keywords m)"
    using assms(3,4) by (auto simp: list_ex_iff)
  ultimately show ?thesis
    using assms(1,2) by (simp add: match_def Let_def)
qed

text \<open>
  C2, as the code has it. For a non-empty text in which the lower-cased form of some
  exclude keyword occurs after lower-casing the text, \<open>match\<close> returns \<open>matched = False\<close>,
  no matched keywords, and \<open>excluded_by\<close> set to the lower-cased form of the first exclude
  keyword of the list that occurs; the include and must-contain keywords play no part. For
  the empty text \<open>match\<close> returns \<open>matched = False\<close>, no matched keywords and \<open>excluded_by\<close>
  unset, whatever the three keyword lists of the matcher are.
\<close>

theorem match_excluded:
  "(text \<noteq> [] \<and> k \<in> set exc \<and> str_in (lower k) (lower text) \<longrightarrow>
      matched (match lower (KeywordMatcher lower inc (Some exc) must) text) = False
      \<and> matched_keywords (match lower (KeywordMatcher lower inc (Some exc) must) text) = []
      \<and> excluded_by (match lower (KeywordMatcher lower inc (Some exc) must) text)
          = find (\<lambda>kw. str_in kw (lower text)) (map lower exc)
      \<and> (\<exists>k'\<in>set exc. str_in (lower k') (lower text)
            \<and> excluded_by (match lower (KeywordMatcher lower inc (Some exc) must) text) = Some (lower k')))
   \<and> match lower m [] = \<lparr>matched = False, matched_keywords = [], excluded_by = None\<rparr>"
proof -
  have nonempty: "text \<noteq> [] \<and> k \<in> set exc \<and> str_in (lower k) (lower text) \<longrightarrow>
      matched (match lower (KeywordMatcher lower inc (Some exc) must) text) = False
      \<and> matched_keywords (match lower (KeywordMatcher lower inc (Some exc) must) text) = []
      \<and> excluded_by (match lower (KeywordMatcher lower inc (Some exc) must) text)
          = find (\<lambda>kw. str_in kw (lower text)) (map lower exc)
      \<and> (\<exists>k'\<in>set exc. str_in (lower k') (lower text)
            \<and> excluded_by (match lower (KeywordMatcher lower inc (Some exc) must) text) = Some (lower k'))"
  proof
    assume a: "text \<noteq> [] \<and> k \<in> set exc \<and> str_in (lower k) (lower text)"
    let ?m = "KeywordMatcher lower inc (Some exc) must"
    have ex: "exclude_keywords ?m = map lower exc"
      by (simp add: KeywordMatcher_def)
    from a have "find (\<lambda>kw. str_in kw (lower text)) (map lower exc) \<noteq> None"
      by (auto simp: find_None_iff)
    then obtain kw where kw: "find (\<lambda>kw. str_in kw (lower text)) (map lower exc) = Some kw"
      by blast
    then have "kw \<in> set (map lower exc)" and hit: "str_in kw (lower text)"
      by (auto simp: find_Some_iff)
    then obtain k' where k': "k' \<in> set exc" "kw = lower k'"
      by auto
    have "match lower ?m text = \<lparr>matched = False, matched_keywords = [], excluded_by = Some kw\<rparr>"
      using a kw by (simp add: match_excluded_aux ex)
    with kw k' hit show "matched (match lower ?m text) = False
      \<and> matched_keywords (match lower ?m text) = []
      \<and> excluded_by (match lower ?m text) = find (\<lambda>kw. str_in kw (lower text)) (map lower exc)
      \<and> (\<exists>k'\<in>set exc. str_in (lower k') (lower text)
            \<and> excluded_by (match lower ?m text) = Some (lower k'))"
      by auto
  qed
  have empty: "match lower m [] = \<lparr>matched = False, matched_keywords = [], excluded_by = None\<rparr>"
    by (simp add: match_def)
  from nonempty empty show ?thesis by blast
qed

theorem match_excluded_witness:
  "''Solar survey drone'' \<noteq> [] \<and> ''Survey'' \<in> set [''mapping'', ''Survey'']
   \<and> str_in (ascii_lower ''Survey'') (ascii_lower ''Solar survey drone'')
   \<and> match ascii_lower (KeywordMatcher ascii_lower [''solar'', ''drone''] (Some [''mapping'', ''Survey'']) (Some [''drone'']))
        ''Solar survey drone''
      = \<lparr>matched = False, matched_keywords = [], excluded_by = Some ''survey''\<rparr>"
proof -
  have h1: "''Solar survey drone'' \<noteq> []" by simp
  have h2: "''Survey'' \<in> set [''mapping'', ''Survey'']" by simp
  have h3: "str_in (ascii_lower ''Survey'') (ascii_lower ''Solar survey drone'')"
    by (simp add: str_in_def ascii_lower_def sublist_code(3))
  have f: "find (\<lambda>kw. str_in kw (ascii_lower ''Solar survey drone'')) (map ascii_lower [''mapping'', ''Survey''])
      = Some ''survey''"
    by (simp add: str_in_def ascii_lower_def sublist_code(3))
  from match_excluded [of "''Solar survey drone''" "''Survey''" "[''mapping'', ''Survey'']" ascii_lower
      "[''solar'', ''drone'']" "Some [''drone'']"] f h1 h2 h3
  show ?thesis
    by (simp add: MatchResult.equality)
qed

text \<open>
  C2 as stated fails in three ways. With the exclude keyword \<open>Survey\<close> the text
  \<open>Drone Survey\<close> is excluded by \<open>survey\<close>, the form \<^verbatim>\<open>__init__\<close> lower-cased, and not by the
  keyword as it was given. With the exclude keywords \<open>mapping\<close> and \<open>survey\<close>, which both
  occur in \<open>survey and mapping\<close>, \<open>excluded_by\<close> is \<open>mapping\<close>, the first of the list, and not
  \<open>survey\<close>. And the empty exclude keyword is a substring of the empty text, on which
  \<open>match\<close> returns at its first test (\<^verbatim>\<open>if not text\<close>) with \<open>excluded_by\<close> unset.
\<close>

theorem match_excluded_by_counterexample:
  "str_in (ascii_lower ''Survey'') (ascii_lower ''Drone Survey'')
   \<and> excluded_by (match ascii_lower (KeywordMatcher ascii_lower [''drone''] (Some [''Survey'']) None)
                   ''Drone Survey'') = Some ''survey''
   \<and> Some ''survey'' \<noteq> Some ''Survey''
   \<and> str_in (ascii_lower ''survey'') (ascii_lower ''survey and mapping'')
   \<and> excluded_by (match ascii_lower (KeywordMatcher ascii_lower [''drone''] (Some [''mapping'', ''survey'']) None)
                   ''survey and mapping'') = Some ''mapping''
   \<and> Some ''mapping'' \<noteq> Some ''survey''
   \<and> str_in (ascii_lower '''') (ascii_lower '''')
   \<and> excluded_by (match ascii_lower (KeywordMatcher ascii_lower [''drone''] (Some ['''']) None) '''') = None"
  by (simp add: match_def KeywordMatcher_def str_in_def ascii_lower_def sublist_code(3))

text \<open>
  C3 against the code. With include keyword \<open>solar\<close> and must-contain keyword \<open>drone\<close>, the
  text \<open>drone survey tender\<close> holds no include keyword, yet \<open>match\<close> returns
  \<open>matched = True\<close>: the must-contain keywords found are appended to the list whose length
  decides \<open>matched\<close>.
\<close>

theorem match_without_include_keyword:
  "match ascii_lower (KeywordMatcher ascii_lower [''solar''] None (Some [''drone''])) ''drone survey tender''
     = \<lparr>matched = True, matched_keywords = [''drone''], excluded_by = None\<rparr>
   \<and> filter (\<lambda>k. str_in (ascii_lower k) (ascii_lower ''drone survey tender'')) [''solar''] = []"
  by (simp add: match_def KeywordMatcher_def ascii_lower_def str_in_def sublist_code)

section \<open>Properties of fetch\<close>

lemma http_error_status_code_None:
  "raise_for_status_raises status \<Longrightarrow> http_error_status_code status = None"
  by (simp add: http_error_status_code_def response_bool_def)

lemma fetch_attempts_http_error:
  assumes "get attempt = Response status body" and "raise_for_status_raises status"
  shows "fetch_attempts max_retries get (attempt # rest) =
           next_attempt max_retries attempt (fetch_attempts max_retries get rest)"
  using assms by (simp add: http_error_status_code_def response_bool_def)

lemma fetch_attempts_html:
  assumes "snd (fetch_attempts max_retries get attempts) = Some html"
  shows "\<exists>attempt \<in> set attempts. \<exists>status.
           get attempt = Response status html \<and> \<not> raise_for_status_raises status"
  using assms
proof (induction attempts)
  case Nil
  then show ?case by simp
next
  case (Cons attempt rest)
  show ?case
  proof (cases "get attempt")
    case (Response status body)
    show ?thesis
    proof (cases "raise_for_status_raises status")
      case True
      with Response Cons.prems have "snd (fetch_attempts max_retries get rest) = Some html"
        by (simp add: fetch_attempts_http_error next_attempt_def del: fetch_attempts.simps)
      with Cons.IH show ?thesis by auto
    next
      case False
      with Response Cons.prems show ?thesis by auto
    qed
  qed (use Cons in \<open>auto simp: next_attempt_def\<close>)
qed

text \<open>
  C7 against the code. A site that answers 403 to every request is asked three times, with
  the back-off sleeps in between, before \<open>fetch\<close> returns no HTML: the test of the status
  code in the handler of \<^verbatim>\<open>HTTPError\<close> reads \<^verbatim>\<open>'N/A'\<close>, since an error response is false as a
  truth value.
\<close>

theorem fetch_403_is_retried:
  "fetch 3 (\<lambda>attempt. Response 403 ''Forbidden'')
     = ([Get 0, Backoff 2, Get 1, Backoff 4, Get 2], None)"
  by (simp add: fetch_def upt_rec raise_for_status_raises_def http_error_status_code_def
      response_bool_def next_attempt_def backoff_def)

section \<open>Properties of crawl\<close>

lemma crawl_loop_step:
  "\<not> is_set stop_event i \<Longrightarrow>
   crawl_loop lower a stop_event fetch_page i (u # us) all_bids failed_count =
     (case page_records lower a (fetch_page i u) of
        None \<Rightarrow> crawl_loop lower a stop_event fetch_page (Suc i) us all_bids (failed_count + 1)
      | Some bids \<Rightarrow> crawl_loop lower a stop_event fetch_page (Suc i) us (all_bids @ bids) failed_count)"
  by (simp add: page_records_def split: option.split sum.split)

lemma crawl_loop_no_stop:
  assumes "\<forall>j < length us. \<not> is_set stop_event (i + j)"
  shows "crawl_loop lower a stop_event fetch_page i us all_bids failed_count =
           (all_bids @ concat (map (\<lambda>p. case page_records lower a (fetch_page (fst p) (snd p)) of
                                             None \<Rightarrow> [] | Some bids \<Rightarrow> bids) (enumerate i us)),
            failed_count + length (filter (\<lambda>p. page_records lower a (fetch_page (fst p) (snd p)) = None)
                                     (enumerate i us)))"
  using assms
proof (induction us arbitrary: i all_bids failed_count)
  case Nil
  show ?case by simp
next
  case (Cons u us)
  have now: "\<not> is_set stop_event i"
    using Cons.prems by force
  have later: "\<forall>j < length us. \<not> is_set stop_event (Suc i + j)"
    using Cons.prems by force
  note IH = Cons.IH [OF later]
  show ?case
  proof (cases "page_records lower a (fetch_page i u)")
    case None
    then show ?thesis by (simp add: crawl_loop_step [OF now] IH del: crawl_loop.simps)
  next
    case (Some bids)
    then show ?thesis by (simp add: crawl_loop_step [OF now] IH del: crawl_loop.simps)
  qed
qed

lemma length_filter_eq_length: "length (filter P xs) = length xs \<longleftrightarrow> (\<forall>x \<in> set xs. P x)"
proof
  assume "length (filter P xs) = length xs"
  then show "\<forall>x \<in> set xs. P x"
    using length_filter_less [of _ xs P] by force
next
  assume "\<forall>x \<in> set xs. P x"
  then show "length (filter P xs) = length xs" by simp
qed

lemma map_enumerate0: "map f (enumerate 0 xs) = map (\<lambda>i. f (i, xs ! i)) [0..<length xs]"
  by (rule nth_equalityI) (simp_all add: nth_enumerate_eq)

lemma all_enumerate0: "(\<forall>p \<in> set (enumerate 0 xs). P p) \<longleftrightarrow> (\<forall>i < length xs. P (i, xs ! i))"
  by (force simp: in_set_enumerate_eq)

lemma crawl_loop_stop_at:
  assumes "j < length us" and "is_set stop_event (i + j)"
  shows "crawl_loop lower a stop_event fetch_page i us all_bids failed_count =
         crawl_loop lower a stop_event fetch_page i (take j us) all_bids failed_count"
  using assms
proof (induction us arbitrary: i j all_bids failed_count)
  case Nil
  then show ?case by simp
next
  case (Cons u us)
  show ?case
  proof (cases j)
    case 0
    with Cons.prems show ?thesis by simp
  next
    case (Suc j')
    with Cons.prems have "j' < length us" and "is_set stop_event (Suc i + j')"
      by simp_all
    note IH = Cons.IH [OF this]
    show ?thesis
    proof (cases "is_set stop_event i")
      case True
      with Suc show ?thesis by simp
    next
      case False
      show ?thesis
        unfolding Suc take_Suc_Cons crawl_loop_step [OF False]
        by (simp add: IH split: option.split)
    qed
  qed
qed

lemma crawl_stopped_before_url:
  assumes "j < length (get_list_urls a)" and "ev j" and "\<forall>i < j. \<not> ev i"
  shows "crawl lower a (Some ev) fetch_page =
           Some (concat (map (\<lambda>i. case page_records lower a (fetch_page i (get_list_urls a ! i)) of
                                      None \<Rightarrow> [] | Some bids \<Rightarrow> bids) [0..<j]))"
proof -
  let ?urls = "get_list_urls a"
  let ?recs = "\<lambda>p. case page_records lower a (fetch_page (fst p) (snd p)) of
                       None \<Rightarrow> [] | Some bids \<Rightarrow> bids"
  let ?fails = "\<lambda>p. page_records lower a (fetch_page (fst p) (snd p)) = None"
  have "is_set (Some ev) (0 + j)"
    using assms(2) by (simp add: is_set_def)
  from crawl_loop_stop_at [OF assms(1) this]
  have cut: "crawl_loop lower a (Some ev) fetch_page 0 ?urls [] 0 =
             crawl_loop lower a (Some ev) fetch_page 0 (take j ?urls) [] 0" .
  have "\<forall>i < length (take j ?urls). \<not> is_set (Some ev) (0 + i)"
    using assms(3) by (simp add: is_set_def)
  from crawl_loop_no_stop [OF this, of lower a fetch_page "[]" 0]
  have loop: "crawl_loop lower a (Some ev) fetch_page 0 (take j ?urls) [] 0 =
      (concat (map ?recs (enumerate 0 (take j ?urls))),
       length (filter ?fails (enumerate 0 (take j ?urls))))"
    by simp
  have "length (filter ?fails (enumerate 0 (take j ?urls))) \<le> length (enumerate 0 (take j ?urls))"
    by (rule length_filter_le)
  with assms(1) have few: "length (filter ?fails (enumerate 0 (take j ?urls))) < length ?urls"
    by simp
  have recs: "map ?recs (enumerate 0 (take j ?urls)) =
      map (\<lambda>i. case page_records lower a (fetch_page i (?urls ! i)) of
                  None \<Rightarrow> [] | Some bids \<Rightarrow> bids) [0..<j]"
    using assms(1) by (simp add: map_enumerate0 min_def)
  show ?thesis
    using few by (simp add: crawl_def Let_def cut loop recs)
qed

text \<open>
  C8. For an adapter with at least one URL and a stop event that no poll sees set (or none),
  \<open>crawl\<close> returns \<^verbatim>\<open>None\<close> exactly when every URL failed, that is when \<open>fetch\<close> gave no
  HTML, or the page carries a block signature, or \<open>parse\<close> raised; otherwise it returns the
  records of all the pages that did not fail, in the order of the URLs. It never raises:
  a failed adapter is a returned \<^verbatim>\<open>None\<close>.
\<close>

theorem crawl_none_iff_all_failed:
  assumes "get_list_urls a \<noteq> []"
    and "\<forall>i < length (get_list_urls a). \<not> is_set stop_event i"
  shows "(crawl lower a stop_event fetch_page = None) =
           (\<forall>i < length (get_list_urls a).
              page_records lower a (fetch_page i (get_list_urls a ! i)) = None)
       \<and> (crawl lower a stop_event fetch_page = None \<or>
          crawl lower a stop_event fetch_page =
            Some (concat (map (\<lambda>i. case page_records lower a (fetch_page i (get_list_urls a ! i)) of
                                       None \<Rightarrow> [] | Some bids \<Rightarrow> bids)
                              [0..<length (get_list_urls a)])))"
proof -
  let ?urls = "get_list_urls a"
  let ?recs = "\<lambda>p. case page_records lower a (fetch_page (fst p) (snd p)) of
                       None \<Rightarrow> [] | Some bids \<Rightarrow> bids"
  let ?fails = "\<lambda>p. page_records lower a (fetch_page (fst p) (snd p)) = None"
  have "\<forall>j < length ?urls. \<not> is_set stop_event (0 + j)"
    using assms(2) by simp
  from crawl_loop_no_stop [OF this, of lower a fetch_page "[]" 0]
  have loop: "crawl_loop lower a stop_event fetch_page 0 ?urls [] 0 =
      (concat (map ?recs (enumerate 0 ?urls)), length (filter ?fails (enumerate 0 ?urls)))"
    by simp
  have all: "(length (filter ?fails (enumerate 0 ?urls)) = length ?urls)
      = (\<forall>i < length ?urls. page_records lower a (fetch_page i (?urls ! i)) = None)"
    using length_filter_eq_length [of ?fails "enumerate 0 ?urls"]
    by (simp add: all_enumerate0)
  have recs: "map ?recs (enumerate 0 ?urls) =
      map (\<lambda>i. case page_records lower a (fetch_page i (?urls ! i)) of
                  None \<Rightarrow> [] | Some bids \<Rightarrow> bids) [0..<length ?urls]"
    by (simp add: map_enumerate0)
  have c: "crawl lower a stop_event fetch_page =
      (if length (filter ?fails (enumerate 0 ?urls)) = length ?urls then None
       else Some (concat (map ?recs (enumerate 0 ?urls))))"
    using assms(1) by (simp add: crawl_def loop Let_def)
  show ?thesis
    unfolding c all recs by simp
qed

theorem crawl_none_iff_all_failed_witness:
  "get_list_urls site_two_pages \<noteq> [] \<and> (\<forall>i. \<not> is_set None i)
   \<and> page_records ascii_lower site_two_pages (second_page_only 0 (get_list_urls site_two_pages ! 0)) = None
   \<and> crawl ascii_lower site_two_pages None second_page_only = Some [bid_a]"
proof -
  let ?page = "\<lambda>i. page_records ascii_lower site_two_pages
                      (second_page_only i (get_list_urls site_two_pages ! i))"
  have h1: "get_list_urls site_two_pages \<noteq> []"
    by (simp add: site_two_pages_def)
  have h2: "\<forall>i. \<not> is_set None i"
    by (simp add: is_set_def)
  then have h2': "\<forall>i < length (get_list_urls site_two_pages). \<not> is_set None i"
    by simp
  have nb: "\<not> is_blocked ascii_lower ''<li>Tender</li>''"
    by (simp add: is_blocked_def blocked_signs_def ascii_lower_def str_in_def sublist_code(3))
  have p0: "?page 0 = None"
    by (simp add: page_records_def second_page_only_def)
  have p1: "?page (Suc 0) = Some [bid_a]"
    using nb by (simp add: page_records_def second_page_only_def site_two_pages_def)
  have u: "[0..<length (get_list_urls site_two_pages)] = [0, Suc 0]"
    by (simp add: site_two_pages_def upt_rec)
  have "Suc 0 < length (get_list_urls site_two_pages)"
    by (simp add: site_two_pages_def)
  with p1 have some: "\<not> (\<forall>i < length (get_list_urls site_two_pages). ?page i = None)"
    by force
  note T = crawl_none_iff_all_failed [OF h1 h2', of ascii_lower second_page_only]
  from T some have "crawl ascii_lower site_two_pages None second_page_only \<noteq> None"
    by blast
  with T have "crawl ascii_lower site_two_pages None second_page_only =
      Some (concat (map (\<lambda>i. case ?page i of None \<Rightarrow> [] | Some bids \<Rightarrow> bids)
                        [0..<length (get_list_urls site_two_pages)]))"
    by blast
  then have "crawl ascii_lower site_two_pages None second_page_only = Some [bid_a]"
    unfolding u by (simp add: p0 p1)
  with h1 h2 p0 show ?thesis by blast
qed

section \<open>Properties of the relevance guard\<close>

lemma outer_handler_returns: "\<exists>rel why. outer_handler False e = Returned rel why"
  by (auto simp: outer_handler_def)

lemma guard_attempts_returns:
  assumes "ns \<noteq> []" and "last ns = max_retries_ai - 1"
  shows "\<exists>rel why. guard_attempts False post ns = Returned rel why"
  using assms
proof (induction ns)
  case Nil
  then show ?case by simp
next
  case (Cons n ns)
  show ?case
  proof (cases "ns = []")
    case True
    with Cons.prems have "n = max_retries_ai - 1" by simp
    with True show ?thesis
      by (auto simp: network_handler_def outer_handler_def max_retries_ai_def
          split: post_outcome.split answer.split)
  next
    case False
    with Cons have "\<exists>rel why. guard_attempts False post ns = Returned rel why" by simp
    then show ?thesis
      by (auto simp: network_handler_def outer_handler_def split: post_outcome.split answer.split)
  qed
qed

lemma guard_attempts_all_network:
  assumes "\<forall>i < max_retries_ai. post i = PostConnectionError \<or> post i = PostTimeout"
  shows "guard_attempts False post [0..<max_retries_ai] = Returned True (AI_network_error max_retries_ai)"
proof -
  have u: "[0..<max_retries_ai] = [0, 1, 2]"
    by (simp add: max_retries_ai_def upt_rec)
  from assms have "post 0 = PostConnectionError \<or> post 0 = PostTimeout"
    and "post 1 = PostConnectionError \<or> post 1 = PostTimeout"
    and "post 2 = PostConnectionError \<or> post 2 = PostTimeout"
    by (simp_all add: max_retries_ai_def)
  then show ?thesis
    unfolding u by (auto simp: network_handler_def max_retries_ai_def)
qed

text \<open>
  C5. With \<^verbatim>\<open>raise_on_error = False\<close>, \<open>check_relevance\<close> always returns a pair and never
  raises; a guard that is not enabled, or has no key, returns True with the reason saying
  so; and when all three attempts end in a connection error or a timeout it returns True
  with the reason that names the three attempts.
\<close>

theorem check_relevance_fails_open:
  "(\<exists>rel why. check_relevance g t c False found post = Returned rel why)
   \<and> (\<not> enabled g \<longrightarrow> check_relevance g t c False found post = Returned True AI_not_enabled)
   \<and> (enabled g \<and> api_key g = [] \<longrightarrow>
        check_relevance g t c False found post = Returned True AI_no_key)
   \<and> (enabled g \<and> api_key g \<noteq> [] \<and> found
        \<and> (\<forall>i < max_retries_ai. post i = PostConnectionError \<or> post i = PostTimeout) \<longrightarrow>
        check_relevance g t c False found post = Returned True (AI_network_error 3))"
proof -
  have "[0..<max_retries_ai] \<noteq> []" "last [0..<max_retries_ai] = max_retries_ai - 1"
    by (simp_all add: max_retries_ai_def upt_rec)
  from guard_attempts_returns [OF this]
  have 1: "\<exists>rel why. check_relevance g t c False found post = Returned rel why"
    by (auto simp: check_relevance_def)
  have 4: "(\<forall>i < max_retries_ai. post i = PostConnectionError \<or> post i = PostTimeout) \<Longrightarrow>
      guard_attempts False post [0..<max_retries_ai] = Returned True (AI_network_error 3)"
    using guard_attempts_all_network [of post] by (simp add: max_retries_ai_def)
  have 2: "\<not> enabled g \<longrightarrow> check_relevance g t c False found post = Returned True AI_not_enabled"
    by (simp add: check_relevance_def)
  have 3: "enabled g \<and> api_key g = [] \<longrightarrow>
        check_relevance g t c False found post = Returned True AI_no_key"
    by (simp add: check_relevance_def)
  have 5: "enabled g \<and> api_key g \<noteq> [] \<and> found
        \<and> (\<forall>i < max_retries_ai. post i = PostConnectionError \<or> post i = PostTimeout) \<longrightarrow>
        check_relevance g t c False found post = Returned True (AI_network_error 3)"
    using 4 by (simp add: check_relevance_def)
  from 1 2 3 5 show ?thesis by blast
qed

theorem check_relevance_fails_open_witness:
  "enabled \<lparr>enabled = True, api_key = ''sk-1''\<rparr> \<and> api_key \<lparr>enabled = True, api_key = ''sk-1''\<rparr> \<noteq> []
   \<and> check_relevance \<lparr>enabled = True, api_key = ''sk-1''\<rparr> ''Wind farm drone inspection'' ''2025''
        False True (\<lambda>n. if n = 1 then PostTimeout else PostConnectionError)
      = Returned True (AI_network_error 3)
   \<and> \<not> enabled \<lparr>enabled = False, api_key = []\<rparr>
   \<and> check_relevance \<lparr>enabled = False, api_key = []\<rparr> ''t'' ''c'' False True (\<lambda>n. PostTimeout)
      = Returned True AI_not_enabled"
  using check_relevance_fails_open [of "\<lparr>enabled = True, api_key = ''sk-1''\<rparr>"
      "''Wind farm drone inspection''" "''2025''" True "\<lambda>n. if n = 1 then PostTimeout else PostConnectionError"]
    check_relevance_fails_open [of "\<lparr>enabled = False, api_key = []\<rparr>" "''t''" "''c''" True "\<lambda>n. PostTimeout"]
  by simp

section \<open>Properties of the notification fan-out\<close>

lemma attempted_append [simp]: "attempted (xs @ ys) = attempted xs @ attempted ys"
  by (induction xs rule: attempted.induct) simp_all

lemma attempted_concat: "attempted (concat xss) = concat (map attempted xss)"
  by (induction xss) simp_all

lemma attempted_notify_contact:
  "bids \<noteq> [] \<Longrightarrow>
   attempted (notify_contact cfg send i c bids) =
     map (Pair i) (filter (channel_due cfg c) [Email, SMS, WeChat, Voice])"
  by (cases "email c")
    (auto simp: notify_contact_def send_email_to_contact_def send_sms_to_contact_def
      send_wechat_to_contact_def send_voice_to_contact_def channel_due_def)

lemma outcomes_notify_contact:
  "Attempt j ch r \<in> set (notify_contact cfg send i c bids) \<Longrightarrow> r = send j ch"
  by (cases "email c")
    (auto simp: notify_contact_def send_email_to_contact_def send_sms_to_contact_def
      send_wechat_to_contact_def send_voice_to_contact_def split: if_splits)

lemma foldl_update_notified:
  "foldl (\<lambda>s' u. update_notified (md5 u) s') s us =
     map (\<lambda>r. if row_unique_id r \<in> md5 ` set us then r\<lparr>notified := 1\<rparr> else r) s"
proof (induction us arbitrary: s)
  case Nil
  show ?case by (simp add: map_idI)
next
  case (Cons u us)
  show ?case
    by (simp add: Cons.IH) (auto simp: update_notified_def)
qed

lemma unnotified_uid_iff:
  assumes "store_inv md5 s" and "r \<in> set s"
  shows "row_unique_id r \<in> md5 ` url ` set (get_unnotified s) \<longleftrightarrow> notified r = 0"
proof
  assume "row_unique_id r \<in> md5 ` url ` set (get_unnotified s)"
  then obtain r' where r': "r' \<in> set s" "notified r' = 0" "row_unique_id r = md5 (url (row_bid r'))"
    by (auto simp: get_unnotified_def)
  with assms(1) have "row_unique_id r = row_unique_id r'"
    by (auto simp: store_inv_def list_all_iff unique_id_def)
  moreover from assms(1) have "inj_on row_unique_id (set s)"
    by (simp add: store_inv_def distinct_map)
  ultimately have "r = r'"
    using assms(2) r'(1) by (auto dest: inj_onD)
  with r'(2) show "notified r = 0" by simp
next
  assume "notified r = 0"
  with assms show "row_unique_id r \<in> md5 ` url ` set (get_unnotified s)"
    by (force simp: get_unnotified_def store_inv_def list_all_iff unique_id_def)
qed

lemma mark_unnotified:
  assumes "store_inv md5 s"
  shows "mark_notified md5 s (UrlList (map url (get_unnotified s))) =
           map (\<lambda>r. if notified r = 0 then r\<lparr>notified := 1\<rparr> else r) s"
  unfolding mark_notified.simps foldl_update_notified
  by (rule map_cong) (simp_all add: unnotified_uid_iff [OF assms])

lemma distinct_unnotified_urls:
  assumes "store_inv md5 s"
  shows "distinct (map url (get_unnotified s))"
proof -
  have d: "distinct (map row_unique_id (filter (\<lambda>r. notified r = 0) s))"
    using assms by (simp add: store_inv_def distinct_map_filter)
  have "map row_unique_id (filter (\<lambda>r. notified r = 0) s) = map md5 (map url (get_unnotified s))"
    using assms by (auto simp: store_inv_def list_all_iff unique_id_def get_unnotified_def)
  with d show ?thesis
    by (metis distinct_map)
qed

lemma notify_unnotified_attempted:
  "attempted (fst (notify_unnotified md5 cfg contacts send s)) =
     (if get_unnotified s = [] then []
      else concat (map (\<lambda>p. map (Pair (fst p))
                               (filter (channel_due cfg (snd p)) [Email, SMS, WeChat, Voice]))
                       (enumerate 0 contacts)))"
  by (simp add: notify_unnotified_def Let_def attempted_concat comp_def attempted_notify_contact
      del: mark_notified.simps)

lemma notify_unnotified_outcomes:
  "\<forall>e \<in> set (fst (notify_unnotified md5 cfg contacts send s)).
      case e of Attempt i ch r \<Rightarrow> r = send i ch | NoAuthCode i \<Rightarrow> True"
  by (auto simp: notify_unnotified_def Let_def split: dispatch_event.split
      dest: outcomes_notify_contact)

lemma notify_unnotified_marks:
  assumes "store_inv md5 s"
  shows "snd (notify_unnotified md5 cfg contacts send s) =
           map (\<lambda>r. if notified r = 0 then r\<lparr>notified := 1\<rparr> else r) s"
proof -
  have "get_unnotified s = [] \<Longrightarrow> map (\<lambda>r. if notified r = 0 then r\<lparr>notified := 1\<rparr> else r) s = s"
    by (rule map_idI) (auto simp: get_unnotified_def filter_empty_conv)
  then show ?thesis
    by (simp add: notify_unnotified_def Let_def mark_unnotified [OF assms] del: mark_notified.simps)
qed

text \<open>
  C4. On a table that satisfies the store's invariant, the fan-out calls the notifier of
  every (contact, channel) pair that is due, in order, whatever the calls before it ended
  in (a false result or an exception), and logs each call with its own outcome; afterwards
  every row that was unnotified has \<open>notified = 1\<close> and no other row or column has changed,
  so that nothing is left unnotified; the single \<open>mark_notified\<close> call names each
  dispatched record once.
\<close>

theorem fanout_attempts_all_and_marks:
  assumes "store_inv md5 s"
  shows "attempted (fst (notify_unnotified md5 cfg contacts send s)) =
           (if get_unnotified s = [] then []
            else concat (map (\<lambda>p. map (Pair (fst p))
                                     (filter (channel_due cfg (snd p)) [Email, SMS, WeChat, Voice]))
                             (enumerate 0 contacts)))
       \<and> (\<forall>e \<in> set (fst (notify_unnotified md5 cfg contacts send s)).
             case e of Attempt i ch r \<Rightarrow> r = send i ch | NoAuthCode i \<Rightarrow> True)
       \<and> snd (notify_unnotified md5 cfg contacts send s) =
           map (\<lambda>r. if notified r = 0 then r\<lparr>notified := 1\<rparr> else r) s
       \<and> get_unnotified (snd (notify_unnotified md5 cfg contacts send s)) = []
       \<and> distinct (map url (get_unnotified s))"
proof -
  let ?bids = "get_unnotified s"
  have none: "?bids = [] \<Longrightarrow> map (\<lambda>r. if notified r = 0 then r\<lparr>notified := 1\<rparr> else r) s = s"
    by (rule map_idI) (auto simp: get_unnotified_def filter_empty_conv)
  have 3: "snd (notify_unnotified md5 cfg contacts send s) =
           map (\<lambda>r. if notified r = 0 then r\<lparr>notified := 1\<rparr> else r) s"
    using none by (simp add: notify_unnotified_def Let_def mark_unnotified [OF assms] del: mark_notified.simps)
  have 1: "attempted (fst (notify_unnotified md5 cfg contacts send s)) =
           (if ?bids = [] then []
            else concat (map (\<lambda>p. map (Pair (fst p))
                                     (filter (channel_due cfg (snd p)) [Email, SMS, WeChat, Voice]))
                             (enumerate 0 contacts)))"
    by (simp add: notify_unnotified_def Let_def attempted_concat comp_def attempted_notify_contact
        del: mark_notified.simps)
  have 2: "\<forall>e \<in> set (fst (notify_unnotified md5 cfg contacts send s)).
             case e of Attempt i ch r \<Rightarrow> r = send i ch | NoAuthCode i \<Rightarrow> True"
    by (auto simp: notify_unnotified_def Let_def split: dispatch_event.split
        dest: outcomes_notify_contact)
  have 4: "get_unnotified (snd (notify_unnotified md5 cfg contacts send s)) = []"
    unfolding 3 by (auto simp: get_unnotified_def filter_empty_conv)
  from 1 2 3 4 distinct_unnotified_urls [OF assms] show ?thesis
    by blast
qed

theorem fanout_attempts_all_and_marks_witness:
  "store_inv md5_table two_rows
   \<and> attempted (fst (notify_unnotified md5_table window [contact_li, contact_wang] flaky_send two_rows))
       = [(0, Email), (0, WeChat), (1, SMS)]
   \<and> get_unnotified (snd (notify_unnotified md5_table window [contact_li, contact_wang] flaky_send two_rows)) = []"
proof -
  have h: "store_inv md5_table two_rows"
    by (simp add: two_rows_eq store_inv_def unique_id_def md5_table_def bid_a_def bid_b_def)
  have ne: "get_unnotified two_rows \<noteq> []"
    by (simp add: two_rows_eq get_unnotified_def)
  have due: "concat (map (\<lambda>p. map (Pair (fst p))
                 (filter (channel_due window (snd p)) [Email, SMS, WeChat, Voice]))
               (enumerate 0 [contact_li, contact_wang])) = [(0, Email), (0, WeChat), (1, SMS)]"
    by (simp add: channel_due_def window_def contact_li_def contact_wang_def)
  note T = fanout_attempts_all_and_marks [OF h, of window "[contact_li, contact_wang]" flaky_send]
  from T have "attempted (fst (notify_unnotified md5_table window [contact_li, contact_wang]
                                 flaky_send two_rows)) =
      (if get_unnotified two_rows = [] then []
       else concat (map (\<lambda>p. map (Pair (fst p))
                               (filter (channel_due window (snd p)) [Email, SMS, WeChat, Voice]))
                        (enumerate 0 [contact_li, contact_wang])))"
    by (rule conjunct1)
  then have a: "attempted (fst (notify_unnotified md5_table window [contact_li, contact_wang]
                                 flaky_send two_rows)) = [(0, Email), (0, WeChat), (1, SMS)]"
    unfolding due using ne by simp
  from T have b: "get_unnotified (snd (notify_unnotified md5_table window [contact_li, contact_wang]
                                          flaky_send two_rows)) = []"
    by blast
  from h a b show ?thesis by blast
qed

section \<open>Properties of a round\<close>

lemma run_adapters_quiet_prefix:
  assumes "\<forall>x < length as1. \<not> stop (BeforeAdapter (i + x)) \<and> (\<forall>j. \<not> stop (BeforeUrl (i + x) j))"
  shows "run_adapters md5 lower accept clock fetch_page stop n_sites i (as1 @ as2) st =
         run_adapters md5 lower accept clock fetch_page stop n_sites (i + length as1) as2
           (run_adapters md5 lower accept clock fetch_page (\<lambda>p. False) n_sites i as1 st)"
  using assms
proof (induction as1 arbitrary: i st)
  case Nil
  show ?case by simp
next
  case (Cons a as1)
  from Cons.prems have now: "\<not> stop (BeforeAdapter i)" and urls: "\<forall>j. \<not> stop (BeforeUrl i j)"
    by force+
  from urls have ev: "(\<lambda>j. stop (BeforeUrl i j)) = (\<lambda>j. False)"
    by auto
  have later: "\<forall>x < length as1. \<not> stop (BeforeAdapter (Suc i + x)) \<and> (\<forall>j. \<not> stop (BeforeUrl (Suc i + x) j))"
    using Cons.prems by force
  show ?case
    using now by (simp add: ev Cons.IH [OF later])
qed

lemma run_adapters_core:
  assumes "round_store st = round_store st'" and "new_count st = new_count st'"
    and "invoked st = invoked st'"
  shows "round_store (run_adapters md5 lower accept clock fetch_page stop n_sites i as st) =
         round_store (run_adapters md5 lower accept clock fetch_page stop n_sites' i as st')
       \<and> new_count (run_adapters md5 lower accept clock fetch_page stop n_sites i as st) =
         new_count (run_adapters md5 lower accept clock fetch_page stop n_sites' i as st')
       \<and> invoked (run_adapters md5 lower accept clock fetch_page stop n_sites i as st) =
         invoked (run_adapters md5 lower accept clock fetch_page stop n_sites' i as st')"
  using assms
proof (induction as arbitrary: i st st')
  case Nil
  then show ?case by simp
next
  case (Cons a as)
  show ?case
  proof (cases "stop (BeforeAdapter i)")
    case True
    with Cons.prems show ?thesis by simp
  next
    case False
    show ?thesis
    proof (cases "crawl lower a (Some (\<lambda>j. stop (BeforeUrl i j))) (fetch_page i)")
      case None
      with False Cons.prems show ?thesis
        by simp (rule Cons.IH, simp_all)
    next
      case (Some bids)
      with False Cons.prems show ?thesis
        by simp (rule Cons.IH, simp_all)
    qed
  qed
qed

lemma run_adapters_invoked:
  "invoked (run_adapters md5 lower accept clock fetch_page (\<lambda>p. False) n_sites i as st) =
     invoked st @ [i..<i + length as]"
proof (induction as arbitrary: i st)
  case Nil
  show ?case by simp
next
  case (Cons a as)
  have u: "[i..<Suc (i + length as)] = i # [Suc i..<Suc (i + length as)]"
    by (rule upt_conv_Cons) simp
  show ?case
    by (cases "crawl lower a (Some (\<lambda>j. False)) (fetch_page i)")
      (simp_all add: Cons.IH u del: upt_Suc)
qed

lemma crawl_loop_same_polls:
  assumes "\<forall>i. is_set e i = is_set e' i"
  shows "crawl_loop lower a e fetch_page i us all_bids failed_count =
         crawl_loop lower a e' fetch_page i us all_bids failed_count"
  using assms
  by (induction us arbitrary: i all_bids failed_count) (simp_all split: option.split sum.split)

lemma crawl_never_set: "crawl lower a (Some (\<lambda>j. False)) fetch_page = crawl lower a None fetch_page"
proof -
  have "\<forall>i. is_set (Some (\<lambda>j. False)) i = is_set None i"
    by (simp add: is_set_def)
  from crawl_loop_same_polls [OF this] show ?thesis
    by (simp add: crawl_def)
qed

lemma persist_new_append:
  "persist_new md5 accept clock (xs @ ys) s n =
     persist_new md5 accept clock ys (fst (persist_new md5 accept clock xs s n))
       (snd (persist_new md5 accept clock xs s n))"
  by (induction xs arbitrary: s n) simp_all

lemma persist_new_rows:
  "\<exists>new. fst (persist_new md5 accept clock bids s n) = s @ new
         \<and> snd (persist_new md5 accept clock bids s n) = n + length new
         \<and> list_all (\<lambda>r. notified r = 0 \<and> accept (row_bid r) \<and> row_bid r \<in> set bids
                          \<and> row_unique_id r = unique_id md5 (row_bid r)) new"
proof (induction bids arbitrary: s n)
  case Nil
  show ?case by simp
next
  case (Cons b bs)
  show ?case
  proof (cases "accept b \<and> \<not> exists_bid md5 s b")
    case True
    let ?r = "\<lparr>row_unique_id = unique_id md5 b, row_bid = b, notified = 0, created_at = clock (length s)\<rparr>"
    from Cons.IH [of "s @ [?r]" "n + 1"] obtain new where
      new: "fst (persist_new md5 accept clock bs (s @ [?r]) (n + 1)) = (s @ [?r]) @ new"
      "snd (persist_new md5 accept clock bs (s @ [?r]) (n + 1)) = (n + 1) + length new"
      "list_all (\<lambda>r. notified r = 0 \<and> accept (row_bid r) \<and> row_bid r \<in> set bs
                          \<and> row_unique_id r = unique_id md5 (row_bid r)) new" by blast
    from new(3) have "list_all (\<lambda>r. notified r = 0 \<and> accept (row_bid r) \<and> row_bid r \<in> set (b # bs)
                          \<and> row_unique_id r = unique_id md5 (row_bid r)) new"
      by (auto simp: list_all_iff)
    with True new(1,2) show ?thesis
      by (intro exI [of _ "?r # new"]) (simp add: save_def)
  next
    case False
    from Cons.IH [of s n] obtain new where
      new: "fst (persist_new md5 accept clock bs s n) = s @ new"
      "snd (persist_new md5 accept clock bs s n) = n + length new"
      "list_all (\<lambda>r. notified r = 0 \<and> accept (row_bid r) \<and> row_bid r \<in> set bs
                          \<and> row_unique_id r = unique_id md5 (row_bid r)) new"
      by blast
    from new(3) have "list_all (\<lambda>r. notified r = 0 \<and> accept (row_bid r) \<and> row_bid r \<in> set (b # bs)
                          \<and> row_unique_id r = unique_id md5 (row_bid r)) new"
      by (auto simp: list_all_iff)
    with False new(1,2) show ?thesis
      by (intro exI [of _ new]) (auto simp: save_def)
  qed
qed

lemma exists_bid_append: "exists_bid md5 s b \<Longrightarrow> exists_bid md5 (s @ new) b"
  by (auto simp: exists_bid_iff)

lemma exists_bid_after_save: "exists_bid md5 (snd (save md5 s b nf now)) b"
  by (simp add: save_def exists_bid_iff)

lemma persist_new_keeps:
  "exists_bid md5 s b \<Longrightarrow> exists_bid md5 (fst (persist_new md5 accept clock bids s n)) b"
  using persist_new_rows [of md5 accept clock bids s n] by (auto intro: exists_bid_append)

lemma persist_new_stores:
  "b \<in> set bids \<Longrightarrow> accept b \<Longrightarrow> exists_bid md5 (fst (persist_new md5 accept clock bids s n)) b"
proof (induction bids arbitrary: s n)
  case Nil
  then show ?case by simp
next
  case (Cons x xs)
  show ?case
  proof (cases "x = b")
    case True
    with Cons.prems show ?thesis
      by (simp add: persist_new_keeps exists_bid_after_save)
  next
    case False
    with Cons show ?thesis by simp
  qed
qed

lemma persist_new_inv:
  "store_inv md5 s \<Longrightarrow> store_inv md5 (fst (persist_new md5 accept clock bids s n))"
  by (induction bids arbitrary: s n) (simp_all add: store_inv_save)

lemma run_adapters_never_stopped:
  "round_store (run_adapters md5 lower accept clock fetch_page (\<lambda>p. False) n_sites i as st) =
     fst (persist_new md5 accept clock
            (concat (map (\<lambda>p. case crawl lower (snd p) None (fetch_page (fst p)) of
                                None \<Rightarrow> [] | Some bids \<Rightarrow> bids) (enumerate i as)))
            (round_store st) (new_count st))
   \<and> new_count (run_adapters md5 lower accept clock fetch_page (\<lambda>p. False) n_sites i as st) =
     snd (persist_new md5 accept clock
            (concat (map (\<lambda>p. case crawl lower (snd p) None (fetch_page (fst p)) of
                                None \<Rightarrow> [] | Some bids \<Rightarrow> bids) (enumerate i as)))
            (round_store st) (new_count st))"
proof (induction as arbitrary: i st)
  case Nil
  show ?case by simp
next
  case (Cons a as)
  show ?case
  proof (cases "crawl lower a None (fetch_page i)")
    case None
    then show ?thesis
      by (simp add: crawl_never_set Cons.IH)
  next
    case (Some bids)
    then show ?thesis
      by (simp add: crawl_never_set Cons.IH persist_new_append)
  qed
qed

lemma crawled_before_take:
  assumes "k \<le> length adapters"
  shows "concat (map (\<lambda>p. case crawl lower (snd p) None (fetch_page (fst p)) of
                            None \<Rightarrow> [] | Some bids \<Rightarrow> bids) (enumerate 0 (take k adapters)))
         = crawled_before lower fetch_page adapters k"
proof -
  have "map (\<lambda>p. case crawl lower (snd p) None (fetch_page (fst p)) of
                    None \<Rightarrow> [] | Some bids \<Rightarrow> bids) (enumerate 0 (take k adapters))
      = map (\<lambda>i. case crawl lower (adapters ! i) None (fetch_page i) of
                    None \<Rightarrow> [] | Some bids \<Rightarrow> bids) [0..<k]"
    using assms by (simp add: map_enumerate0 min_def)
  then show ?thesis
    by (simp add: crawled_before_def)
qed

lemma small_page_not_blocked: "\<not> is_blocked ascii_lower ''<li>Tender</li>''"
  by (simp add: is_blocked_def blocked_signs_def ascii_lower_def str_in_def sublist_code(3))

lemma crawled_before_example:
  "crawled_before ascii_lower small_page [site_a, site_b, site_c] 2 = [bid_a, bid_b]"
proof -
  have a: "crawl ascii_lower site_a None (small_page 0) = Some [bid_a]"
    by (simp add: crawl_def site_a_def small_page_def is_set_def small_page_not_blocked)
  have b: "crawl ascii_lower site_b None (small_page 1) = Some [bid_b]"
    by (simp add: crawl_def site_b_def small_page_def is_set_def small_page_not_blocked)
  have u: "[0..<2] = [0, 1]"
    by (simp add: upt_rec)
  show ?thesis
    unfolding crawled_before_def u using a b by simp
qed

lemma persist_new_example:
  "persist_new md5_table (\<lambda>b. True) (\<lambda>n. 100 + n) [bid_a, bid_b] [] 0 =
     ([\<lparr>row_unique_id = ''65701cd5a37e6a35e716f0642bbdb797'', row_bid = bid_a, notified = 0, created_at = 100\<rparr>,
       \<lparr>row_unique_id = ''6e8597b4f38925b0e742c9fb66ec5219'', row_bid = bid_b, notified = 0, created_at = 101\<rparr>],
      2)"
  by (simp add: save_def exists_bid_def unique_id_def md5_table_def bid_a_def bid_b_def)

text \<open>
  C6. When the stop event is first seen set at the poll before the adapter at position \<open>k\<close>
  (counted from 0), the round invokes exactly the adapters before it, in order. Its table
  and its count of new records are those of an uninterrupted round over just those
  adapters: the table is the one the round started from, followed by the rows that
  persisting the records of those adapters, each crawled to its end, adds to it; the count
  is the number of added rows; every added row is unnotified, holds an accepted record of
  those adapters and has the digest of its URL as \<open>unique_id\<close>; and every accepted record of
  those adapters is in the table afterwards. The added rows are among the unnotified ones.
  When the count is positive \<^verbatim>\<open>_do_crawl\<close> goes on to the fan-out although the round was
  stopped, and on a table that satisfies the store's invariant the fan-out then calls the
  notifier of every (contact, channel) pair that is due, logs each call with its own
  outcome, and leaves the table of the round with every unnotified row marked: each added
  row is in it with \<open>notified = 1\<close>, and nothing is left unnotified. Inside an adapter the
  event is polled before each URL only: when it is first seen set before the URL at
  position \<open>j\<close>, the pages before it were fetched and parsed in full and their records are
  returned.
\<close>

theorem round_stopped_before_adapter:
  assumes "k < length adapters"
    and "\<forall>i < k. \<not> stop (BeforeAdapter i) \<and> (\<forall>j. \<not> stop (BeforeUrl i j))"
    and "stop (BeforeAdapter k)"
  shows "invoked (run_once md5 lower accept clock fetch_page stop adapters s) = [0..<k]
       \<and> round_store (run_once md5 lower accept clock fetch_page stop adapters s) =
           round_store (run_once md5 lower accept clock fetch_page (\<lambda>p. False) (take k adapters) s)
       \<and> new_count (run_once md5 lower accept clock fetch_page stop adapters s) =
           new_count (run_once md5 lower accept clock fetch_page (\<lambda>p. False) (take k adapters) s)
       \<and> round_store (run_once md5 lower accept clock fetch_page stop adapters s) =
           fst (persist_new md5 accept clock (crawled_before lower fetch_page adapters k) s 0)
       \<and> new_count (run_once md5 lower accept clock fetch_page stop adapters s) =
           length (round_store (run_once md5 lower accept clock fetch_page stop adapters s)) - length s
       \<and> prefix s (round_store (run_once md5 lower accept clock fetch_page stop adapters s))
       \<and> list_all (\<lambda>row. notified row = 0 \<and> accept (row_bid row)
                           \<and> row_bid row \<in> set (crawled_before lower fetch_page adapters k)
                           \<and> row_unique_id row = unique_id md5 (row_bid row))
            (drop (length s) (round_store (run_once md5 lower accept clock fetch_page stop adapters s)))
       \<and> list_all (\<lambda>b. \<not> accept b \<or>
                         exists_bid md5 (round_store (run_once md5 lower accept clock fetch_page stop adapters s)) b)
            (crawled_before lower fetch_page adapters k)
       \<and> set (map row_bid (drop (length s)
                 (round_store (run_once md5 lower accept clock fetch_page stop adapters s))))
           \<subseteq> set (get_unnotified (round_store (run_once md5 lower accept clock fetch_page stop adapters s)))
       \<and> (\<not> stop AtStart \<and> 0 < new_count (run_once md5 lower accept clock fetch_page stop adapters s) \<longrightarrow>
            do_crawl md5 lower accept clock fetch_page stop adapters cfg contacts send s =
              Notified (run_once md5 lower accept clock fetch_page stop adapters s)
                (fst (notify_unnotified md5 cfg contacts send
                        (round_store (run_once md5 lower accept clock fetch_page stop adapters s))))
                (snd (notify_unnotified md5 cfg contacts send
                        (round_store (run_once md5 lower accept clock fetch_page stop adapters s)))))
       \<and> (store_inv md5 s \<and> 0 < new_count (run_once md5 lower accept clock fetch_page stop adapters s) \<longrightarrow>
            attempted (fst (notify_unnotified md5 cfg contacts send
                        (round_store (run_once md5 lower accept clock fetch_page stop adapters s)))) =
              concat (map (\<lambda>p. map (Pair (fst p))
                                   (filter (channel_due cfg (snd p)) [Email, SMS, WeChat, Voice]))
                          (enumerate 0 contacts))
            \<and> (\<forall>e \<in> set (fst (notify_unnotified md5 cfg contacts send
                        (round_store (run_once md5 lower accept clock fetch_page stop adapters s)))).
                  case e of Attempt i ch r \<Rightarrow> r = send i ch | NoAuthCode i \<Rightarrow> True)
            \<and> snd (notify_unnotified md5 cfg contacts send
                        (round_store (run_once md5 lower accept clock fetch_page stop adapters s))) =
                map (\<lambda>r. if notified r = 0 then r\<lparr>notified := 1\<rparr> else r)
                  (round_store (run_once md5 lower accept clock fetch_page stop adapters s))
            \<and> get_unnotified (snd (notify_unnotified md5 cfg contacts send
                        (round_store (run_once md5 lower accept clock fetch_page stop adapters s)))) = []
            \<and> list_all (\<lambda>row. row\<lparr>notified := 1\<rparr> \<in>
                                set (snd (notify_unnotified md5 cfg contacts send
                                  (round_store (run_once md5 lower accept clock fetch_page stop adapters s)))))
                 (drop (length s) (round_store (run_once md5 lower accept clock fetch_page stop adapters s))))
       \<and> (j < length (get_list_urls a) \<and> ev j \<and> (\<forall>i < j. \<not> ev i) \<longrightarrow>
            crawl lower a (Some ev) page =
              Some (concat (map (\<lambda>i. case page_records lower a (page i (get_list_urls a ! i)) of
                                         None \<Rightarrow> [] | Some bids \<Rightarrow> bids) [0..<j])))"
proof -
  let ?st0 = "\<lparr>round_store = s, new_count = 0, invoked = [], failed_adapters = [], progress = []\<rparr>"
  let ?run = "run_once md5 lower accept clock fetch_page stop adapters s"
  let ?quiet = "run_adapters md5 lower accept clock fetch_page (\<lambda>p. False) (length adapters) 0
                  (take k adapters) ?st0"
  let ?short = "run_once md5 lower accept clock fetch_page (\<lambda>p. False) (take k adapters) s"
  let ?got = "crawled_before lower fetch_page adapters k"
  let ?N = "notify_unnotified md5 cfg contacts send (round_store ?run)"
  let ?mark = "\<lambda>r. if notified r = 0 then r\<lparr>notified := 1\<rparr> else r"
  have len: "length (take k adapters) = k"
    using assms(1) by simp
  have m: "min (length adapters) k = k"
    using assms(1) by simp
  obtain a' rest where rest: "drop k adapters = a' # rest"
    using assms(1) by (cases "drop k adapters") simp_all
  have "\<forall>x < length (take k adapters).
           \<not> stop (BeforeAdapter (0 + x)) \<and> (\<forall>j. \<not> stop (BeforeUrl (0 + x) j))"
    using assms(2) by simp
  from run_adapters_quiet_prefix [OF this, of md5 lower accept clock fetch_page "length adapters"
      "drop k adapters" ?st0]
  have "?run = run_adapters md5 lower accept clock fetch_page stop (length adapters) k
                 (drop k adapters) ?quiet"
    by (simp add: run_once_def m)
  then have run: "?run = ?quiet"
    using assms(3) by (simp add: rest)
  have core: "round_store ?quiet = round_store ?short \<and> new_count ?quiet = new_count ?short
      \<and> invoked ?quiet = invoked ?short"
    unfolding run_once_def len
    by (rule run_adapters_core) simp_all
  have inv: "invoked ?quiet = [0..<k]"
    using run_adapters_invoked [of md5 lower accept clock fetch_page "length adapters" 0
        "take k adapters" ?st0]
    by (simp add: m)
  have k': "k \<le> length adapters"
    using assms(1) by simp
  from run_adapters_never_stopped [of md5 lower accept clock fetch_page "length adapters" 0
      "take k adapters" ?st0]
  have st: "round_store ?run = fst (persist_new md5 accept clock ?got s 0)"
    and nc: "new_count ?run = snd (persist_new md5 accept clock ?got s 0)"
    unfolding run crawled_before_take [OF k'] by simp_all
  from persist_new_rows [of md5 accept clock ?got s 0] obtain new where
    new: "round_store ?run = s @ new" "new_count ?run = length new"
    "list_all (\<lambda>r. notified r = 0 \<and> accept (row_bid r) \<and> row_bid r \<in> set ?got
                    \<and> row_unique_id r = unique_id md5 (row_bid r)) new"
    unfolding st nc by auto
  have 4: "prefix s (round_store ?run)"
    using new(1) by simp
  have n4a: "new_count ?run = length (round_store ?run) - length s"
    using new(1,2) by simp
  have n4b: "list_all (\<lambda>row. notified row = 0 \<and> accept (row_bid row) \<and> row_bid row \<in> set ?got
                           \<and> row_unique_id row = unique_id md5 (row_bid row))
            (drop (length s) (round_store ?run))"
    using new(1,3) by simp
  have n4c: "list_all (\<lambda>b. \<not> accept b \<or> exists_bid md5 (round_store ?run) b) ?got"
    unfolding st list_all_iff by (auto intro: persist_new_stores)
  have 5: "set (map row_bid (drop (length s) (round_store ?run))) \<subseteq> set (get_unnotified (round_store ?run))"
    using new(1,3) by (auto simp: get_unnotified_def list_all_iff)
  have 6: "\<not> stop AtStart \<and> 0 < new_count ?run \<longrightarrow>
            do_crawl md5 lower accept clock fetch_page stop adapters cfg contacts send s =
              Notified ?run (fst ?N) (snd ?N)"
    by (simp add: do_crawl_def Let_def)
  have n6a: "store_inv md5 s \<and> 0 < new_count ?run \<longrightarrow>
      attempted (fst ?N) =
        concat (map (\<lambda>p. map (Pair (fst p))
                             (filter (channel_due cfg (snd p)) [Email, SMS, WeChat, Voice]))
                    (enumerate 0 contacts))
      \<and> (\<forall>e \<in> set (fst ?N). case e of Attempt i ch r \<Rightarrow> r = send i ch | NoAuthCode i \<Rightarrow> True)
      \<and> snd ?N = map ?mark (round_store ?run)
      \<and> get_unnotified (snd ?N) = []
      \<and> list_all (\<lambda>row. row\<lparr>notified := 1\<rparr> \<in> set (snd ?N)) (drop (length s) (round_store ?run))"
  proof
    assume a: "store_inv md5 s \<and> 0 < new_count ?run"
    then have si: "store_inv md5 (round_store ?run)"
      unfolding st by (simp add: persist_new_inv)
    from a new(2) obtain r0 where "r0 \<in> set new"
      by (cases new) auto
    with new(1,3) have ne: "get_unnotified (round_store ?run) \<noteq> []"
      by (auto simp: get_unnotified_def list_all_iff filter_empty_conv)
    from notify_unnotified_attempted [of md5 cfg contacts send "round_store ?run"] ne
    have e1: "attempted (fst ?N) =
        concat (map (\<lambda>p. map (Pair (fst p))
                             (filter (channel_due cfg (snd p)) [Email, SMS, WeChat, Voice]))
                    (enumerate 0 contacts))"
      by simp
    have e2: "\<forall>e \<in> set (fst ?N). case e of Attempt i ch r \<Rightarrow> r = send i ch | NoAuthCode i \<Rightarrow> True"
      by (rule notify_unnotified_outcomes)
    have e3: "snd ?N = map ?mark (round_store ?run)"
      by (rule notify_unnotified_marks [OF si])
    have e4: "get_unnotified (snd ?N) = []"
      unfolding e3 by (auto simp: get_unnotified_def filter_empty_conv)
    have e5: "list_all (\<lambda>row. row\<lparr>notified := 1\<rparr> \<in> set (snd ?N)) (drop (length s) (round_store ?run))"
      unfolding e3 using new(1,3) by (auto simp: list_all_iff image_iff intro!: bexI)
    from e1 e2 e3 e4 e5 show "attempted (fst ?N) =
        concat (map (\<lambda>p. map (Pair (fst p))
                             (filter (channel_due cfg (snd p)) [Email, SMS, WeChat, Voice]))
                    (enumerate 0 contacts))
      \<and> (\<forall>e \<in> set (fst ?N). case e of Attempt i ch r \<Rightarrow> r = send i ch | NoAuthCode i \<Rightarrow> True)
      \<and> snd ?N = map ?mark (round_store ?run)
      \<and> get_unnotified (snd ?N) = []
      \<and> list_all (\<lambda>row. row\<lparr>notified := 1\<rparr> \<in> set (snd ?N)) (drop (length s) (round_store ?run))"
      by blast
  qed
  have 7: "j < length (get_list_urls a) \<and> ev j \<and> (\<forall>i < j. \<not> ev i) \<longrightarrow>
            crawl lower a (Some ev) page =
              Some (concat (map (\<lambda>i. case page_records lower a (page i (get_list_urls a ! i)) of
                                         None \<Rightarrow> [] | Some bids \<Rightarrow> bids) [0..<j]))"
    using crawl_stopped_before_url [of j a ev lower page] by blast
  have 1: "invoked ?run = [0..<k]"
    using run inv by simp
  have 2: "round_store ?run = round_store ?short" and 3: "new_count ?run = new_count ?short"
    using run core by simp_all
  from 1 2 3 st n4a 4 n4b n4c 5 6 n6a 7 show ?thesis
    by blast
qed

theorem round_stopped_before_adapter_witness:
  "2 < length [site_a, site_b, site_c]
   \<and> \<not> stop_before_third (BeforeAdapter 0) \<and> \<not> stop_before_third (BeforeAdapter 1)
   \<and> (\<forall>j. \<not> stop_before_third (BeforeUrl 0 j)) \<and> (\<forall>j. \<not> stop_before_third (BeforeUrl 1 j))
   \<and> stop_before_third (BeforeAdapter 2)
   \<and> \<not> stop_before_third AtStart \<and> store_inv md5_table []
   \<and> crawled_before ascii_lower small_page [site_a, site_b, site_c] 2 = [bid_a, bid_b]
   \<and> invoked stopped_round = [0, 1]
   \<and> round_store stopped_round =
       [\<lparr>row_unique_id = ''65701cd5a37e6a35e716f0642bbdb797'', row_bid = bid_a, notified = 0, created_at = 100\<rparr>,
        \<lparr>row_unique_id = ''6e8597b4f38925b0e742c9fb66ec5219'', row_bid = bid_b, notified = 0, created_at = 101\<rparr>]
   \<and> new_count stopped_round = 2
   \<and> do_crawl md5_table ascii_lower (\<lambda>b. True) (\<lambda>n. 100 + n) small_page stop_before_third
        [site_a, site_b, site_c] window [contact_li, contact_wang] flaky_send [] =
       Notified stopped_round
         (fst (notify_unnotified md5_table window [contact_li, contact_wang] flaky_send
                 (round_store stopped_round)))
         (snd (notify_unnotified md5_table window [contact_li, contact_wang] flaky_send
                 (round_store stopped_round)))
   \<and> attempted (fst (notify_unnotified md5_table window [contact_li, contact_wang] flaky_send
                       (round_store stopped_round))) = [(0, Email), (0, WeChat), (1, SMS)]
   \<and> snd (notify_unnotified md5_table window [contact_li, contact_wang] flaky_send
             (round_store stopped_round)) =
       [\<lparr>row_unique_id = ''65701cd5a37e6a35e716f0642bbdb797'', row_bid = bid_a, notified = 1, created_at = 100\<rparr>,
        \<lparr>row_unique_id = ''6e8597b4f38925b0e742c9fb66ec5219'', row_bid = bid_b, notified = 1, created_at = 101\<rparr>]
   \<and> 1 < length (get_list_urls site_two_pages)
   \<and> crawl ascii_lower site_two_pages (Some (\<lambda>i. i = 1)) (small_page 0) = Some [bid_a]"
proof -
  let ?N = "notify_unnotified md5_table window [contact_li, contact_wang] flaky_send
              (round_store stopped_round)"
  have h1: "2 < length [site_a, site_b, site_c]" by simp
  have q: "\<not> stop_before_third (BeforeAdapter 0)" "\<not> stop_before_third (BeforeAdapter 1)"
    "\<forall>j. \<not> stop_before_third (BeforeUrl 0 j)" "\<forall>j. \<not> stop_before_third (BeforeUrl 1 j)"
    by (simp_all add: stop_before_third_def)
  have h2: "\<forall>i < 2. \<not> stop_before_third (BeforeAdapter i) \<and> (\<forall>j. \<not> stop_before_third (BeforeUrl i j))"
    by (simp add: stop_before_third_def)
  have h3: "stop_before_third (BeforeAdapter 2)"
    by (simp add: stop_before_third_def)
  have h4: "\<not> stop_before_third AtStart"
    by (simp add: stop_before_third_def)
  have h5: "store_inv md5_table []"
    by (simp add: store_inv_def)
  have h6: "1 < length (get_list_urls site_two_pages)"
    by (simp add: site_two_pages_def)
  have h7: "(\<lambda>i. i = (1::nat)) 1 \<and> (\<forall>i < 1. \<not> (\<lambda>i. i = (1::nat)) i)"
    by simp
  note T = round_stopped_before_adapter [OF h1 h2 h3, of md5_table ascii_lower "\<lambda>b. True"
      "\<lambda>n. 100 + n" small_page "[]" window "[contact_li, contact_wang]" flaky_send
      1 site_two_pages "\<lambda>i. i = 1" "small_page 0", folded stopped_round_def]
  from T have i: "invoked stopped_round = [0..<2]"
    by (rule conjunct1)
  then have i': "invoked stopped_round = [0, 1]"
    by (simp add: upt_rec)
  from T have "round_store stopped_round =
      fst (persist_new md5_table (\<lambda>b. True) (\<lambda>n. 100 + n)
             (crawled_before ascii_lower small_page [site_a, site_b, site_c] 2) [] 0)"
    by blast
  then have st: "round_store stopped_round =
       [\<lparr>row_unique_id = ''65701cd5a37e6a35e716f0642bbdb797'', row_bid = bid_a, notified = 0, created_at = 100\<rparr>,
        \<lparr>row_unique_id = ''6e8597b4f38925b0e742c9fb66ec5219'', row_bid = bid_b, notified = 0, created_at = 101\<rparr>]"
    unfolding crawled_before_example persist_new_example by simp
  from T have "new_count stopped_round = length (round_store stopped_round) - length ([] :: store)"
    by blast
  then have nc: "new_count stopped_round = 2"
    unfolding st by simp
  then have pos: "0 < new_count stopped_round"
    by simp
  from T h4 pos have dc: "do_crawl md5_table ascii_lower (\<lambda>b. True) (\<lambda>n. 100 + n) small_page
        stop_before_third [site_a, site_b, site_c] window [contact_li, contact_wang] flaky_send [] =
       Notified stopped_round (fst ?N) (snd ?N)"
    by blast
  have due: "concat (map (\<lambda>p. map (Pair (fst p))
                 (filter (channel_due window (snd p)) [Email, SMS, WeChat, Voice]))
               (enumerate 0 [contact_li, contact_wang])) = [(0, Email), (0, WeChat), (1, SMS)]"
    by (simp add: channel_due_def window_def contact_li_def contact_wang_def)
  from T h5 pos have "attempted (fst ?N) =
      concat (map (\<lambda>p. map (Pair (fst p))
                 (filter (channel_due window (snd p)) [Email, SMS, WeChat, Voice]))
               (enumerate 0 [contact_li, contact_wang]))"
    by blast
  then have at: "attempted (fst ?N) = [(0, Email), (0, WeChat), (1, SMS)]"
    unfolding due .
  from T h5 pos have "snd ?N =
      map (\<lambda>r. if notified r = 0 then r\<lparr>notified := 1\<rparr> else r) (round_store stopped_round)"
    by blast
  then have mk: "snd ?N =
       [\<lparr>row_unique_id = ''65701cd5a37e6a35e716f0642bbdb797'', row_bid = bid_a, notified = 1, created_at = 100\<rparr>,
        \<lparr>row_unique_id = ''6e8597b4f38925b0e742c9fb66ec5219'', row_bid = bid_b, notified = 1, created_at = 101\<rparr>]"
    unfolding st by simp
  have pr: "page_records ascii_lower site_two_pages
              (small_page 0 0 (get_list_urls site_two_pages ! 0)) = Some [bid_a]"
    by (simp add: page_records_def small_page_def site_two_pages_def small_page_not_blocked)
  from T h6 h7 have "crawl ascii_lower site_two_pages (Some (\<lambda>i. i = 1)) (small_page 0) =
      Some (concat (map (\<lambda>i. case page_records ascii_lower site_two_pages
                                     (small_page 0 i (get_list_urls site_two_pages ! i)) of
                                None \<Rightarrow> [] | Some bids \<Rightarrow> bids) [0..<1]))"
    by blast
  then have cr: "crawl ascii_lower site_two_pages (Some (\<lambda>i. i = 1)) (small_page 0) = Some [bid_a]"
    using pr by simp
  from h1 q h3 h4 h5 crawled_before_example i' st nc dc at mk h6 cr show ?thesis
    by blast
qed

end
